theory Spec2Isabelle
  imports Complex_Main
begin

section \<open>Data model of vtkMapMarkerSet\<close>

text \<open>
  The clustering engine of \<^verbatim>\<open>vtkMapMarkerSet.cxx\<close> is a pointer structure: nodes are
  allocated with \<^verbatim>\<open>new\<close>, linked through \<^verbatim>\<open>Parent\<close> and \<^verbatim>\<open>Children\<close>, stored in per-level
  sets and freed with \<^verbatim>\<open>delete\<close>. The embedding keeps an explicit store.

  \<^item> A pointer is an address (\<open>ptr\<close>); a possibly-null pointer is a \<open>ptr option\<close>.
  \<^item> The store is a list of cells: \<^verbatim>\<open>new\<close> appends a cell, \<^verbatim>\<open>delete\<close> empties one. Addresses
    are never handed out twice, and they grow in allocation order.
  \<^item> \<^verbatim>\<open>std::set<ClusteringNode*>\<close> iterates in address order, so a set is an ascending list
    without repetitions.
  \<^item> Reading or writing through a null pointer, through a pointer to a freed cell, or
    indexing a vector out of range is undefined behaviour in the source; the embedding
    stops with a \<open>fault\<close>.
  \<^item> \<^verbatim>\<open>double\<close> is idealised as \<open>real\<close> (no rounding), \<^verbatim>\<open>int\<close> as \<open>int\<close> (counters stay far
    below the 32-bit limit). The one division whose divisor the caller can make zero, the
    render scale of a cluster, keeps the IEEE 754 result apart: its value is a
    \<open>double_value\<close>, a real number or one of the three special values. Diagnostic macros (\<^verbatim>\<open>vtkDebugMacro\<close>, \<^verbatim>\<open>vtkWarningMacro\<close>,
    \<^verbatim>\<open>vtkErrorMacro\<close>) only print and are left out.
\<close>

type_synonym ptr = nat

record ClusteringNode =
  NodeId :: int
  Level :: int
  gcsCoords :: "real \<times> real"
  Parent :: "ptr option"
  Children :: "ptr list"
  NumberOfMarkers :: int
  MarkerId :: int

datatype fault = NullDereference | DanglingPointer | IndexOutOfRange

datatype double_value = Finite real | PositiveInfinity | NegativeInfinity | NotANumber

text \<open>
  The object state: the members of \<^verbatim>\<open>vtkMapMarkerSet\<close> that the engine reads, the point
  data of \<^verbatim>\<open>this->PolyData\<close> (the three named arrays exist only after \<^verbatim>\<open>Init\<close>), the members
  of \<^verbatim>\<open>MapMarkerSetInternals\<close>, and the store. \<open>InternalsNumberOfMarkers\<close> is
  \<^verbatim>\<open>Internals->NumberOfMarkers\<close> (the node field of the same name keeps the plain name).
  \<open>PolyPoints\<close> holds the first two components of each inserted point.
\<close>

record MapMarkerSet =
  Initialized :: bool
  Clustering :: bool
  MaxClusterScaleFactor :: real
  PolyPoints :: "(real \<times> real) list"
  ColorArray :: "(nat \<times> nat \<times> nat) list option"
  MarkerTypeArray :: "nat list option"
  MarkerScaleArray :: "double_value list option"
  MarkersChanged :: bool
  CurrentNodes :: "ptr list"
  ZoomLevel :: int
  NodeTable :: "ptr list list"
  InternalsNumberOfMarkers :: int
  ClusterDistance :: real
  NumberOfNodes :: int
  AllNodes :: "ptr option list"
  Store :: "ClusteringNode option list"

definition NumberOfClusterLevels :: int where
  "NumberOfClusterLevels = 20"

definition MARKER_TYPE :: nat where
  "MARKER_TYPE = 0"

definition CLUSTER_TYPE :: nat where
  "CLUSTER_TYPE = 1"

subsection \<open>Sets of pointers\<close>

fun set_insert :: "ptr \<Rightarrow> ptr list \<Rightarrow> ptr list" where
  "set_insert x [] = [x]"
| "set_insert x (y # ys) =
     (if x < y then x # y # ys else if x = y then y # ys else y # set_insert x ys)"

definition set_erase :: "ptr \<Rightarrow> ptr list \<Rightarrow> ptr list" where
  "set_erase x xs = removeAll x xs"

subsection \<open>The store\<close>

definition lookup :: "ClusteringNode option list \<Rightarrow> ptr \<Rightarrow> ClusteringNode option" where
  "lookup h a = (if a < length h then h ! a else None)"

definition deref :: "MapMarkerSet \<Rightarrow> ptr option \<Rightarrow> fault + ClusteringNode" where
  "deref s p =
     (case p of
        None \<Rightarrow> Inl NullDereference
      | Some a \<Rightarrow> (case lookup (Store s) a of
                    None \<Rightarrow> Inl DanglingPointer
                  | Some nd \<Rightarrow> Inr nd))"

definition assign :: "MapMarkerSet \<Rightarrow> ptr \<Rightarrow> ClusteringNode \<Rightarrow> MapMarkerSet" where
  "assign s a nd = s\<lparr>Store := (Store s)[a := Some nd]\<rparr>"

definition new_node :: "MapMarkerSet \<Rightarrow> ClusteringNode \<Rightarrow> MapMarkerSet \<times> ptr" where
  "new_node s nd = (s\<lparr>Store := Store s @ [Some nd]\<rparr>, length (Store s))"

definition delete_node :: "MapMarkerSet \<Rightarrow> ptr \<Rightarrow> MapMarkerSet" where
  "delete_node s a = s\<lparr>Store := (Store s)[a := None]\<rparr>"

definition table_at :: "MapMarkerSet \<Rightarrow> int \<Rightarrow> fault + ptr list" where
  "table_at s level =
     (if 0 \<le> level \<and> level < int (length (NodeTable s))
      then Inr (NodeTable s ! nat level) else Inl IndexOutOfRange)"

definition table_put :: "MapMarkerSet \<Rightarrow> int \<Rightarrow> ptr list \<Rightarrow> MapMarkerSet" where
  "table_put s level xs = s\<lparr>NodeTable := (NodeTable s)[nat level := xs]\<rparr>"

section \<open>Construction and set-up\<close>

definition constructor :: MapMarkerSet where
  "constructor =
     \<lparr>Initialized = False, Clustering = False, MaxClusterScaleFactor = 2,
      PolyPoints = [], ColorArray = None, MarkerTypeArray = None, MarkerScaleArray = None,
      MarkersChanged = False, CurrentNodes = [], ZoomLevel = -1,
      NodeTable = replicate (nat NumberOfClusterLevels) [],
      InternalsNumberOfMarkers = 0, ClusterDistance = 80, NumberOfNodes = 0,
      AllNodes = [], Store = []\<rparr>"

definition Init :: "MapMarkerSet \<Rightarrow> MapMarkerSet" where
  "Init s = s\<lparr>ColorArray := Some [], MarkerTypeArray := Some [],
              MarkerScaleArray := Some [], Initialized := True\<rparr>"

section \<open>Proximity search\<close>

definition distance2 :: "ClusteringNode \<Rightarrow> ClusteringNode \<Rightarrow> real" where
  "distance2 other node =
     (let d2 = 0;
          d1 = fst (gcsCoords other) - fst (gcsCoords node);
          d2 = d2 + d1 * d1;
          d1 = snd (gcsCoords other) - snd (gcsCoords node);
          d2 = d2 + d1 * d1
      in d2)"

fun scan_closest ::
  "MapMarkerSet \<Rightarrow> ptr option \<Rightarrow> ptr list \<Rightarrow> ptr option \<times> real \<Rightarrow> fault + (ptr option \<times> real)"
where
  "scan_closest s node [] acc = Inr acc"
| "scan_closest s node (other # rest) (closestNode, closestDistance2) =
     (if Some other = node then scan_closest s node rest (closestNode, closestDistance2)
      else case deref s (Some other) of
             Inl e \<Rightarrow> Inl e
           | Inr od \<Rightarrow>
              (case deref s node of
                 Inl e \<Rightarrow> Inl e
               | Inr nd \<Rightarrow>
                  (if distance2 od nd < closestDistance2
                   then scan_closest s node rest (Some other, distance2 od nd)
                   else scan_closest s node rest (closestNode, closestDistance2))))"

definition gcsThreshold2 :: "int \<Rightarrow> real \<Rightarrow> real" where
  "gcsThreshold2 zoomLevel distanceThreshold =
     (let level0Scale = 360 / 256;
          scale = level0Scale / real_of_int (2 ^ nat zoomLevel);
          gcsThreshold = scale * distanceThreshold
      in gcsThreshold * gcsThreshold)"

definition FindClosestNode ::
  "MapMarkerSet \<Rightarrow> ptr option \<Rightarrow> int \<Rightarrow> real \<Rightarrow> fault + ptr option"
where
  "FindClosestNode s node zoomLevel distanceThreshold =
     (case table_at s zoomLevel of
        Inl e \<Rightarrow> Inl e
      | Inr nodeSet \<Rightarrow>
         (case scan_closest s node nodeSet (None, gcsThreshold2 zoomLevel distanceThreshold) of
            Inl e \<Rightarrow> Inl e
          | Inr (closestNode, closestDistance2) \<Rightarrow> Inr closestNode))"

section \<open>Sequencing of statements that may fault\<close>

definition andThen :: "fault + 'a \<Rightarrow> ('a \<Rightarrow> fault + 'b) \<Rightarrow> fault + 'b" where
  "andThen m f = (case m of Inl e \<Rightarrow> Inl e | Inr x \<Rightarrow> f x)"

text \<open>\<open>modify s p f\<close> is an assignment through the pointer \<open>p\<close>: \<^verbatim>\<open>p->field = value\<close>.\<close>

definition modify ::
  "MapMarkerSet \<Rightarrow> ptr option \<Rightarrow> (ClusteringNode \<Rightarrow> ClusteringNode) \<Rightarrow> fault + MapMarkerSet"
where
  "modify s p f =
     (case p of
        None \<Rightarrow> Inl NullDereference
      | Some a \<Rightarrow> (case lookup (Store s) a of
                    None \<Rightarrow> Inl DanglingPointer
                  | Some nd \<Rightarrow> Inr (assign s a (f nd))))"

section \<open>Merge\<close>

text \<open>Lines 603-613: the new position and count of \<open>node\<close>.\<close>

definition merge_coords :: "MapMarkerSet \<Rightarrow> ptr option \<Rightarrow> ptr \<Rightarrow> fault + MapMarkerSet" where
  "merge_coords s node mergingNode =
     andThen (deref s node) (\<lambda>nd.
     andThen (deref s (Some mergingNode)) (\<lambda>md.
       let numMarkers = NumberOfMarkers nd + NumberOfMarkers md;
           denominator = real_of_int numMarkers;
           x = (fst (gcsCoords nd) * real_of_int (NumberOfMarkers nd) +
                fst (gcsCoords md) * real_of_int (NumberOfMarkers md)) / denominator;
           y = (snd (gcsCoords nd) * real_of_int (NumberOfMarkers nd) +
                snd (gcsCoords md) * real_of_int (NumberOfMarkers md)) / denominator
       in modify s node
            (\<lambda>nd. nd\<lparr>gcsCoords := (x, y), NumberOfMarkers := numMarkers, MarkerId := -1\<rparr>)))"

text \<open>Lines 615-625: the children of \<open>mergingNode\<close> move to \<open>node\<close>.\<close>

fun reparent :: "MapMarkerSet \<Rightarrow> ptr option \<Rightarrow> ptr list \<Rightarrow> fault + MapMarkerSet" where
  "reparent s node [] = Inr s"
| "reparent s node (childNode # rest) =
     andThen (modify s node (\<lambda>nd. nd\<lparr>Children := set_insert childNode (Children nd)\<rparr>)) (\<lambda>s1.
     andThen (modify s1 (Some childNode) (\<lambda>cd. cd\<lparr>Parent := node\<rparr>)) (\<lambda>s2.
       reparent s2 node rest))"

definition reparent_children :: "MapMarkerSet \<Rightarrow> ptr option \<Rightarrow> ptr \<Rightarrow> fault + MapMarkerSet" where
  "reparent_children s node mergingNode =
     andThen (deref s (Some mergingNode)) (\<lambda>md. reparent s node (Children md))"

text \<open>Lines 627-631: the incremental adjustment of the two parents' counts.\<close>

definition adjust_parent_counts ::
  "MapMarkerSet \<Rightarrow> ptr option \<Rightarrow> ptr \<Rightarrow> fault + MapMarkerSet"
where
  "adjust_parent_counts s node mergingNode =
     andThen (deref s (Some mergingNode)) (\<lambda>md.
       let n = NumberOfMarkers md in
       andThen (deref s node) (\<lambda>nd.
       andThen (modify s (Parent nd) (\<lambda>pd. pd\<lparr>NumberOfMarkers := NumberOfMarkers pd + n\<rparr>)) (\<lambda>s1.
       andThen (deref s1 (Some mergingNode)) (\<lambda>md1.
         modify s1 (Parent md1) (\<lambda>pd. pd\<lparr>NumberOfMarkers := NumberOfMarkers pd - n\<rparr>)))))"

text \<open>Lines 633-635.\<close>

definition detach_from_parent :: "MapMarkerSet \<Rightarrow> ptr \<Rightarrow> fault + MapMarkerSet" where
  "detach_from_parent s mergingNode =
     andThen (deref s (Some mergingNode)) (\<lambda>md.
       modify s (Parent md) (\<lambda>pd. pd\<lparr>Children := set_erase mergingNode (Children pd)\<rparr>))"

text \<open>Lines 637-641.\<close>

definition remember_parent ::
  "MapMarkerSet \<Rightarrow> ptr option \<Rightarrow> ptr \<Rightarrow> ptr list \<Rightarrow> fault + ptr list"
where
  "remember_parent s node mergingNode parentsToMerge =
     andThen (deref s (Some mergingNode)) (\<lambda>md.
       case Parent md of
         None \<Rightarrow> Inr parentsToMerge
       | Some parent \<Rightarrow>
           andThen (deref s node) (\<lambda>nd.
             if Some parent \<noteq> Parent nd then Inr (set_insert parent parentsToMerge)
             else Inr parentsToMerge))"

text \<open>Lines 643-657.\<close>

definition delete_merging :: "MapMarkerSet \<Rightarrow> ptr \<Rightarrow> int \<Rightarrow> fault + MapMarkerSet" where
  "delete_merging s mergingNode level =
     andThen (table_at s level) (\<lambda>nodeSet.
       let s1 = (if mergingNode \<in> set nodeSet
                 then table_put s level (set_erase mergingNode nodeSet) else s) in
       andThen (deref s1 (Some mergingNode)) (\<lambda>md.
         if 0 \<le> NodeId md \<and> NodeId md < int (length (AllNodes s1))
         then Inr (delete_node (s1\<lparr>AllNodes := (AllNodes s1)[nat (NodeId md) := None]\<rparr>)
                     mergingNode)
         else Inl IndexOutOfRange))"

definition MergeNodes ::
  "MapMarkerSet \<Rightarrow> ptr option \<Rightarrow> ptr \<Rightarrow> ptr list \<Rightarrow> int \<Rightarrow> fault + (MapMarkerSet \<times> ptr list)"
where
  "MergeNodes s node mergingNode parentsToMerge level =
     andThen (deref s node) (\<lambda>nd.
     andThen (deref s (Some mergingNode)) (\<lambda>md.
     andThen (merge_coords s node mergingNode) (\<lambda>s1.
     andThen (reparent_children s1 node mergingNode) (\<lambda>s2.
     andThen (adjust_parent_counts s2 node mergingNode) (\<lambda>s3.
     andThen (detach_from_parent s3 mergingNode) (\<lambda>s4.
     andThen (remember_parent s4 node mergingNode parentsToMerge) (\<lambda>parentsToMerge1.
     andThen (delete_merging s4 mergingNode level) (\<lambda>s5.
       Inr (s5, parentsToMerge1)))))))))"

section \<open>Insertion and refinement\<close>

text \<open>
  The climb (lines 154-199). \<open>climb n\<close> runs the loop for \<open>level = n - 1\<close> down to \<open>0\<close>; it
  returns the state, the climbing node and the value of \<open>level\<close> when the loop is left
  (the level of the merge after \<^verbatim>\<open>break\<close>, \<open>-1\<close> otherwise).
\<close>

definition climb_merge :: "MapMarkerSet \<Rightarrow> ptr \<Rightarrow> ptr \<Rightarrow> fault + MapMarkerSet" where
  "climb_merge s node closest =
     andThen (deref s (Some closest)) (\<lambda>cd.
     andThen (deref s (Some node)) (\<lambda>nd.
       let denominator = 1 + real_of_int (NumberOfMarkers cd);
           x = (fst (gcsCoords cd) * real_of_int (NumberOfMarkers cd) + fst (gcsCoords nd))
                 / denominator;
           y = (snd (gcsCoords cd) * real_of_int (NumberOfMarkers cd) + snd (gcsCoords nd))
                 / denominator
       in
       andThen (modify s (Some closest)
                 (\<lambda>cd. cd\<lparr>gcsCoords := (x, y), NumberOfMarkers := NumberOfMarkers cd + 1,
                          MarkerId := -1, Children := set_insert node (Children cd)\<rparr>)) (\<lambda>s1.
         modify s1 (Some node) (\<lambda>nd. nd\<lparr>Parent := Some closest\<rparr>))))"

definition climb_copy :: "MapMarkerSet \<Rightarrow> ptr \<Rightarrow> int \<Rightarrow> fault + (MapMarkerSet \<times> ptr)" where
  "climb_copy s node level =
     andThen (deref s (Some node)) (\<lambda>nd.
       let (s1, newNode) = new_node s
              \<lparr>NodeId = NumberOfNodes s, Level = level, gcsCoords = gcsCoords nd,
               Parent = None, Children = [node],
               NumberOfMarkers = NumberOfMarkers nd, MarkerId = MarkerId nd\<rparr>;
           s2 = s1\<lparr>AllNodes := AllNodes s1 @ [Some newNode],
                   NumberOfNodes := NumberOfNodes s1 + 1\<rparr>
       in
       andThen (table_at s2 level) (\<lambda>nodeSet.
       andThen (modify (table_put s2 level (set_insert newNode nodeSet)) (Some node)
                 (\<lambda>nd. nd\<lparr>Parent := Some newNode\<rparr>)) (\<lambda>s3.
         Inr (s3, newNode))))"

fun climb :: "nat \<Rightarrow> real \<Rightarrow> ptr \<Rightarrow> MapMarkerSet \<Rightarrow> fault + (MapMarkerSet \<times> ptr \<times> int)" where
  "climb 0 threshold node s = Inr (s, node, -1)"
| "climb (Suc l) threshold node s =
     andThen (FindClosestNode s (Some node) (int l) threshold) (\<lambda>closest.
       case closest of
         Some c \<Rightarrow> andThen (climb_merge s node c) (\<lambda>s1. Inr (s1, c, int l))
       | None \<Rightarrow> andThen (climb_copy s node (int l)) (\<lambda>(s1, newNode).
                   climb l threshold newNode s1))"

text \<open>Lines 213-230: merging the nodes queued by the previous iteration.\<close>

fun merge_queued ::
  "MapMarkerSet \<Rightarrow> ptr option \<Rightarrow> ptr list \<Rightarrow> ptr list \<Rightarrow> int \<Rightarrow> fault + (MapMarkerSet \<times> ptr list)"
where
  "merge_queued s node [] parentsToMerge level = Inr (s, parentsToMerge)"
| "merge_queued s node (mergingNode # rest) parentsToMerge level =
     (if node = Some mergingNode then merge_queued s node rest parentsToMerge level
      else andThen (MergeNodes s node mergingNode parentsToMerge level) (\<lambda>(s1, parentsToMerge1).
             merge_queued s1 node rest parentsToMerge1 level))"

text \<open>Lines 234-254: count and position recomputed from the children.\<close>

fun sum_children ::
  "MapMarkerSet \<Rightarrow> ptr list \<Rightarrow> int \<times> real \<times> real \<Rightarrow> fault + (int \<times> real \<times> real)"
where
  "sum_children s [] acc = Inr acc"
| "sum_children s (child # rest) (numMarkers, numerator0, numerator1) =
     andThen (deref s (Some child)) (\<lambda>cd.
       sum_children s rest
         (numMarkers + NumberOfMarkers cd,
          numerator0 + real_of_int (NumberOfMarkers cd) * fst (gcsCoords cd),
          numerator1 + real_of_int (NumberOfMarkers cd) * snd (gcsCoords cd)))"

definition recompute :: "MapMarkerSet \<Rightarrow> ptr option \<Rightarrow> fault + MapMarkerSet" where
  "recompute s node =
     andThen (deref s node) (\<lambda>nd.
     andThen (sum_children s (Children nd) (0, 0, 0)) (\<lambda>(numMarkers, numerator0, numerator1).
       modify s node
         (\<lambda>nd. nd\<lparr>NumberOfMarkers := numMarkers,
                  MarkerId := (if numMarkers > 1 then -1 else MarkerId nd),
                  gcsCoords := (numerator0 / real_of_int numMarkers,
                                numerator1 / real_of_int numMarkers)\<rparr>)))"

text \<open>
  The refinement (lines 211-270). \<open>refine n\<close> runs the loop for \<open>level = n - 1\<close> down to \<open>0\<close>.
\<close>

fun refine ::
  "nat \<Rightarrow> real \<Rightarrow> ptr option \<Rightarrow> ptr list \<Rightarrow> MapMarkerSet \<Rightarrow> fault + MapMarkerSet"
where
  "refine 0 threshold node nodesToMerge s = Inr s"
| "refine (Suc l) threshold node nodesToMerge s =
     andThen (merge_queued s node nodesToMerge [] (int l)) (\<lambda>(s1, parentsToMerge).
     andThen (recompute s1 node) (\<lambda>s2.
     andThen (FindClosestNode s2 node (int l) threshold) (\<lambda>closest.
     andThen (case closest of
                None \<Rightarrow> Inr (s2, parentsToMerge)
              | Some c \<Rightarrow> MergeNodes s2 node c parentsToMerge (int l)) (\<lambda>(s3, parentsToMerge1).
     andThen (deref s3 node) (\<lambda>nd.
       refine l threshold (Parent nd) parentsToMerge1 s3)))))"

text \<open>Lines 142-271: the body of \<^verbatim>\<open>if (this->Clustering)\<close>.\<close>

definition cluster_insert :: "MapMarkerSet \<Rightarrow> ptr \<Rightarrow> fault + MapMarkerSet" where
  "cluster_insert s node =
     (let level = int (length (NodeTable s)) - 1 in
      andThen (modify s (Some node) (\<lambda>nd. nd\<lparr>Level := level\<rparr>)) (\<lambda>s1.
      andThen (table_at s1 level) (\<lambda>nodeSet.
        let s2 = table_put s1 level (set_insert node nodeSet);
            threshold = ClusterDistance s2
        in
        andThen (climb (nat level) threshold node s2) (\<lambda>(s3, node1, level1).
        andThen (deref s3 (Some node1)) (\<lambda>nd1.
          refine (nat level1) threshold (Parent nd1) [] s3)))))"

text \<open>
  \<^verbatim>\<open>vtkMercator::lat2y\<close> is not part of the sources at hand; the projection is a parameter.
\<close>

definition AddMarker ::
  "(real \<Rightarrow> real) \<Rightarrow> real \<Rightarrow> real \<Rightarrow> MapMarkerSet \<Rightarrow> fault + (int \<times> MapMarkerSet)"
where
  "AddMarker lat2y latitude longitude s =
     (let markerId = InternalsNumberOfMarkers s;
          s1 = s\<lparr>InternalsNumberOfMarkers := markerId + 1\<rparr>;
          (s2, node) = new_node s1
             \<lparr>NodeId = NumberOfNodes s1, Level = 0, gcsCoords = (longitude, lat2y latitude),
              Parent = None, Children = [], NumberOfMarkers = 1, MarkerId = markerId\<rparr>;
          s3 = s2\<lparr>AllNodes := AllNodes s2 @ [Some node], NumberOfNodes := NumberOfNodes s2 + 1\<rparr>
      in
      andThen (if Clustering s3 then cluster_insert s3 node else Inr s3) (\<lambda>s4.
        Inr (markerId, s4\<lparr>MarkersChanged := True\<rparr>)))"

text \<open>A caller that adds a list of markers, one \<^verbatim>\<open>AddMarker\<close> call each, and collects the ids.\<close>

fun AddMarkers ::
  "(real \<Rightarrow> real) \<Rightarrow> (real \<times> real) list \<Rightarrow> MapMarkerSet \<Rightarrow> fault + (int list \<times> MapMarkerSet)"
where
  "AddMarkers lat2y [] s = Inr ([], s)"
| "AddMarkers lat2y ((latitude, longitude) # rest) s =
     andThen (AddMarker lat2y latitude longitude s) (\<lambda>(markerId, s1).
     andThen (AddMarkers lat2y rest s1) (\<lambda>(markerIds, s2). Inr (markerId # markerIds, s2)))"

section \<open>Materialization\<close>

definition kwBlue :: "nat \<times> nat \<times> nat" where
  "kwBlue = (0, 83, 155)"

definition kwGreen :: "nat \<times> nat \<times> nat" where
  "kwGreen = (0, 169, 179)"

text \<open>
  A \<^verbatim>\<open>double\<close> division of real operands. A zero divisor is the result of an exact
  cancellation here, hence \<open>+0\<close>: the quotient is then an infinity with the sign of the
  dividend, or not a number when the dividend is zero as well.
\<close>

definition double_divide :: "real \<Rightarrow> real \<Rightarrow> double_value" where
  "double_divide x y =
     (if y \<noteq> 0 then Finite (x / y)
      else if 0 < x then PositiveInfinity
      else if x < 0 then NegativeInfinity
      else NotANumber)"

definition cluster_scale :: "real \<Rightarrow> real \<Rightarrow> int \<Rightarrow> double_value" where
  "cluster_scale k b numberOfMarkers =
     (let x = real_of_int numberOfMarkers in double_divide (k * x * x) (x * x + b))"

text \<open>
  Lines 441-460. The accumulator holds the local \<^verbatim>\<open>points\<close>, \<^verbatim>\<open>CurrentNodes\<close> and the three
  arrays \<^verbatim>\<open>types\<close>, \<^verbatim>\<open>colors\<close>, \<^verbatim>\<open>scales\<close>, in this order.
\<close>

type_synonym emitted =
  "(real \<times> real) list \<times> ptr list \<times> nat list \<times> (nat \<times> nat \<times> nat) list \<times> double_value list"

fun emit_nodes :: "MapMarkerSet \<Rightarrow> real \<Rightarrow> real \<Rightarrow> ptr list \<Rightarrow> emitted \<Rightarrow> fault + emitted" where
  "emit_nodes s k b [] acc = Inr acc"
| "emit_nodes s k b (node # rest) (points, current, types, colors, scales) =
     andThen (deref s (Some node)) (\<lambda>nd.
       if NumberOfMarkers nd = 1
       then emit_nodes s k b rest
              (points @ [gcsCoords nd], current @ [node], types @ [MARKER_TYPE],
               colors @ [kwBlue], scales @ [Finite 1])
       else emit_nodes s k b rest
              (points @ [gcsCoords nd], current @ [node], types @ [CLUSTER_TYPE],
               colors @ [kwGreen], scales @ [cluster_scale k b (NumberOfMarkers nd)]))"

text \<open>
  \<^verbatim>\<open>Update\<close>; the argument \<open>zoom\<close> is the value of \<^verbatim>\<open>this->Layer->GetMap()->GetZoom()\<close>.
\<close>

definition Update :: "int \<Rightarrow> MapMarkerSet \<Rightarrow> fault + MapMarkerSet" where
  "Update zoom s =
     (let zoomLevel = (if zoom \<ge> NumberOfClusterLevels then NumberOfClusterLevels - 1 else zoom)
      in
      if \<not> Clustering s \<and> \<not> MarkersChanged s then Inr s
      else if Clustering s \<and> \<not> MarkersChanged s \<and> zoomLevel = ZoomLevel s then Inr s
      else
        let zoomLevel = (if \<not> Clustering s then 0 else zoomLevel) in
        (case (ColorArray s, MarkerTypeArray s, MarkerScaleArray s) of
           (Some c, Some t, Some m) \<Rightarrow>
             (let k = MaxClusterScaleFactor s;
                  b = 4 * k - 4
              in
              andThen (table_at s zoomLevel) (\<lambda>nodeSet.
              andThen (emit_nodes s k b nodeSet ([], [], [], [], []))
                (\<lambda>(points, current, types, colors, scales).
                  Inr (s\<lparr>CurrentNodes := current, ColorArray := Some colors,
                         MarkerTypeArray := Some types, MarkerScaleArray := Some scales,
                         PolyPoints := points, MarkersChanged := False,
                         ZoomLevel := zoomLevel\<rparr>))))
         | _ \<Rightarrow> Inl NullDereference))"

section \<open>Pick resolution\<close>

definition index_at :: "'a list \<Rightarrow> int \<Rightarrow> fault + 'a" where
  "index_at xs i = (if 0 \<le> i \<and> i < int (length xs) then Inr (xs ! nat i)
                    else Inl IndexOutOfRange)"

text \<open>
  \<^verbatim>\<open>GetMarkerIds\<close>. The rendered poly data belongs to the rendering pipeline: \<open>cells\<close> gives
  the point ids of each of its cells and \<open>inputPointIdArray\<close> its array
  \<^verbatim>\<open>"InputPointIds"\<close>; \<open>originating_point\<close> is lines 517-526, the look-up of the input point
  id of a cell. The accumulator of the loop holds \<^verbatim>\<open>idSet\<close> and the two output lists.
\<close>

definition originating_point :: "int list list \<Rightarrow> int list \<Rightarrow> int \<Rightarrow> fault + int" where
  "originating_point cells inputPointIdArray cellId =
     andThen (index_at cells cellId) (\<lambda>pointIds.
     andThen (index_at pointIds 0) (\<lambda>pointId.
       index_at inputPointIdArray pointId))"

fun resolve_cells ::
  "MapMarkerSet \<Rightarrow> int list list \<Rightarrow> int list \<Rightarrow> int list \<Rightarrow> int list \<times> int list \<times> int list
     \<Rightarrow> fault + (int list \<times> int list \<times> int list)"
where
  "resolve_cells s cells inputPointIdArray [] acc = Inr acc"
| "resolve_cells s cells inputPointIdArray (cellId # rest) (idSet, markerIds, clusterIds) =
     andThen (originating_point cells inputPointIdArray cellId) (\<lambda>inputPointId.
       if inputPointId \<in> set idSet
       then resolve_cells s cells inputPointIdArray rest (idSet, markerIds, clusterIds)
       else
         andThen (index_at (CurrentNodes s) inputPointId) (\<lambda>node.
         andThen (deref s (Some node)) (\<lambda>nd.
           if NumberOfMarkers nd = 1
           then resolve_cells s cells inputPointIdArray rest
                  (inputPointId # idSet, markerIds @ [MarkerId nd], clusterIds)
           else resolve_cells s cells inputPointIdArray rest
                  (inputPointId # idSet, markerIds, clusterIds @ [NodeId nd]))))"

definition GetMarkerIds ::
  "MapMarkerSet \<Rightarrow> int list list \<Rightarrow> int list \<Rightarrow> int list \<Rightarrow> int list \<Rightarrow> int list
     \<Rightarrow> fault + (int list \<times> int list)"
where
  "GetMarkerIds s cells inputPointIdArray cellIds markerIds clusterIds =
     andThen (resolve_cells s cells inputPointIdArray cellIds ([], markerIds, clusterIds))
       (\<lambda>(idSet, markerIds1, clusterIds1). Inr (markerIds1, clusterIds1))"

section \<open>Scenarios\<close>

text \<open>
  Concrete runs used to evaluate the model. The projection is the identity in all of
  them; every marker of a scenario lies on the equator (latitude 0).
\<close>

definition two_near_markers :: "fault + MapMarkerSet" where
  "two_near_markers =
     andThen (AddMarkers (\<lambda>lat. lat) [(0, 0), (0, 1 / 16384)]
                (Init (constructor\<lparr>Clustering := True\<rparr>)))
       (\<lambda>(markerIds, s). Inr s)"

definition two_far_markers :: "fault + MapMarkerSet" where
  "two_far_markers =
     andThen (AddMarkers (\<lambda>lat. lat) [(0, 0), (0, 120)]
                (Init (constructor\<lparr>Clustering := True\<rparr>)))
       (\<lambda>(markerIds, s). Inr s)"


definition three_markers_shown :: "fault + MapMarkerSet" where
  "three_markers_shown =
     andThen (AddMarkers (\<lambda>lat. lat) [(0, 0), (0, 1 / 16384), (0, 120)]
                (Init (constructor\<lparr>Clustering := True\<rparr>)))
       (\<lambda>(markerIds, s). Update 0 s)"

section \<open>Notions used in the statements\<close>


text \<open>The node that the last materialization stored at a point index.\<close>

definition picked :: "MapMarkerSet \<Rightarrow> int \<Rightarrow> fault + ClusteringNode" where
  "picked s inputPointId =
     andThen (index_at (CurrentNodes s) inputPointId) (\<lambda>node. deref s (Some node))"



section \<open>The finest level\<close>

text \<open>
  Notions for the claim about level 19. An address is \<open>coarse\<close> when it is allocated and
  does not hold a node of the finest level. \<open>leaf_inv\<close> is the invariant of the engine
  that the claim rests on; \<open>leaf_frame s s'\<close> says what a step from \<open>s\<close> to \<open>s'\<close> leaves alone:
  no node changes its level, a node of the finest level changes at most its parent link,
  and the finest level's set stays as it is.
\<close>

definition finest :: int where
  "finest = NumberOfClusterLevels - 1"

definition coarse :: "MapMarkerSet \<Rightarrow> ptr \<Rightarrow> bool" where
  "coarse s q \<longleftrightarrow>
     q < length (Store s) \<and> (\<forall>nd. lookup (Store s) q = Some nd \<longrightarrow> Level nd \<noteq> finest)"

definition leaf_inv :: "MapMarkerSet \<Rightarrow> bool" where
  "leaf_inv s \<longleftrightarrow>
     length (NodeTable s) = 20 \<and>
     (\<forall>l < 19. \<forall>p \<in> set (NodeTable s ! l). coarse s p) \<and>
     (\<forall>p nd q. lookup (Store s) p = Some nd \<longrightarrow> Parent nd = Some q \<longrightarrow> coarse s q) \<and>
     (\<forall>p \<in> set (NodeTable s ! 19). \<exists>nd. lookup (Store s) p = Some nd \<and> Level nd = finest)"

definition leaf_frame :: "MapMarkerSet \<Rightarrow> MapMarkerSet \<Rightarrow> bool" where
  "leaf_frame s s' \<longleftrightarrow>
     length (Store s) \<le> length (Store s') \<and>
     (\<forall>p nd'. p < length (Store s) \<longrightarrow> lookup (Store s') p = Some nd' \<longrightarrow>
        (\<exists>nd. lookup (Store s) p = Some nd \<and> Level nd' = Level nd)) \<and>
     (\<forall>p nd. lookup (Store s) p = Some nd \<longrightarrow> Level nd = finest \<longrightarrow>
        (\<exists>nd'. lookup (Store s') p = Some nd' \<and> nd' = nd\<lparr>Parent := Parent nd'\<rparr>)) \<and>
     NodeTable s' ! 19 = NodeTable s ! 19 \<and>
     length (NodeTable s') = length (NodeTable s) \<and>
     Clustering s' = Clustering s \<and>
     ClusterDistance s' = ClusterDistance s \<and>
     InternalsNumberOfMarkers s' = InternalsNumberOfMarkers s"

text \<open>What the claim says about a node of the finest level: count, marker id, position.\<close>

definition leaf_view :: "MapMarkerSet \<Rightarrow> ptr \<Rightarrow> (int \<times> int \<times> real \<times> real) option" where
  "leaf_view s p =
     map_option (\<lambda>nd. (NumberOfMarkers nd, MarkerId nd, gcsCoords nd)) (lookup (Store s) p)"

section \<open>The cluster tree\<close>

text \<open>
  Notions for the claim about marker counts and centroids.
\<close>

text \<open>The active set of a level; empty for a level that the table does not have.\<close>

definition level_set :: "MapMarkerSet \<Rightarrow> nat \<Rightarrow> ptr set" where
  "level_set s l = (if l < length (NodeTable s) then set (NodeTable s ! l) else {})"

text \<open>The parent link and the presence of children, read through an address.\<close>

definition parent_of :: "MapMarkerSet \<Rightarrow> ptr \<Rightarrow> ptr option" where
  "parent_of s p = (case lookup (Store s) p of Some nd \<Rightarrow> Parent nd | None \<Rightarrow> None)"

definition has_children :: "MapMarkerSet \<Rightarrow> ptr \<Rightarrow> bool" where
  "has_children s p \<longleftrightarrow> (case lookup (Store s) p of Some nd \<Rightarrow> Children nd \<noteq> [] | None \<Rightarrow> False)"

text \<open>
  What a child contributes to its parent: its marker count, and its position weighted by
  its marker count.
\<close>

definition child_count :: "MapMarkerSet \<Rightarrow> ptr \<Rightarrow> int" where
  "child_count s c = (case lookup (Store s) c of Some cd \<Rightarrow> NumberOfMarkers cd | None \<Rightarrow> 0)"

definition child_wx :: "MapMarkerSet \<Rightarrow> ptr \<Rightarrow> real" where
  "child_wx s c =
     (case lookup (Store s) c of
        Some cd \<Rightarrow> real_of_int (NumberOfMarkers cd) * fst (gcsCoords cd) | None \<Rightarrow> 0)"

definition child_wy :: "MapMarkerSet \<Rightarrow> ptr \<Rightarrow> real" where
  "child_wy s c =
     (case lookup (Store s) c of
        Some cd \<Rightarrow> real_of_int (NumberOfMarkers cd) * snd (gcsCoords cd) | None \<Rightarrow> 0)"

text \<open>
  A node is \<open>consistent\<close> when its marker count is the sum of its children's counts and
  its position, weighted by its count, is the sum of its children's weighted positions.
  A node is \<open>good\<close> at its level when it holds at least one marker and, above the finest
  level, has children and is consistent.
\<close>

definition consistent :: "MapMarkerSet \<Rightarrow> ClusteringNode \<Rightarrow> bool" where
  "consistent s nd \<longleftrightarrow>
     NumberOfMarkers nd = (\<Sum>c\<leftarrow>Children nd. child_count s c) \<and>
     real_of_int (NumberOfMarkers nd) * fst (gcsCoords nd) = (\<Sum>c\<leftarrow>Children nd. child_wx s c) \<and>
     real_of_int (NumberOfMarkers nd) * snd (gcsCoords nd) = (\<Sum>c\<leftarrow>Children nd. child_wy s c)"

definition good :: "MapMarkerSet \<Rightarrow> nat \<Rightarrow> ClusteringNode \<Rightarrow> bool" where
  "good s l nd \<longleftrightarrow>
     1 \<le> NumberOfMarkers nd \<and> (l < 19 \<longrightarrow> Children nd \<noteq> [] \<and> consistent s nd)"

text \<open>
  The shape of the tree around a node of level \<open>l\<close>: its children are distinct nodes of the
  level below (\<open>l + 1\<close>) that name it as their parent, and its parent is a node of the level
  above (\<open>l - 1\<close>) that lists it as a child. Only a node of level 0 has no parent, except
  for the nodes in \<open>Y\<close>: the node that an insertion is still carrying to the next level.
\<close>

definition linked :: "MapMarkerSet \<Rightarrow> ptr set \<Rightarrow> nat \<Rightarrow> ptr \<Rightarrow> ClusteringNode \<Rightarrow> bool" where
  "linked s Y l p nd \<longleftrightarrow>
     Level nd = int l \<and> distinct (Children nd) \<and>
     (\<forall>c \<in> set (Children nd).
        c \<in> level_set s (Suc l) \<and> (\<exists>cd. lookup (Store s) c = Some cd \<and> Parent cd = Some p)) \<and>
     (case Parent nd of
        None \<Rightarrow> l = 0 \<or> p \<in> Y
      | Some q \<Rightarrow> 0 < l \<and> q \<in> level_set s (l - 1) \<and>
                  (\<exists>qd. lookup (Store s) q = Some qd \<and> p \<in> set (Children qd)))"

text \<open>
  The invariant of the engine. Every node in a level's set is live and linked; it is good
  unless it is in \<open>X\<close>, the nodes whose count or position is currently out of date because
  a child was added, removed or changed. Between two \<^verbatim>\<open>AddMarker\<close> calls \<open>X\<close> and \<open>Y\<close> are empty.
\<close>

definition tree_inv :: "MapMarkerSet \<Rightarrow> ptr set \<Rightarrow> ptr set \<Rightarrow> bool" where
  "tree_inv s X Y \<longleftrightarrow>
     length (NodeTable s) = 20 \<and>
     (\<forall>l < 20. \<forall>p \<in> level_set s l.
        \<exists>nd. lookup (Store s) p = Some nd \<and> linked s Y l p nd \<and> (p \<notin> X \<longrightarrow> good s l nd))"

text \<open>
  The parents of a set of nodes, and the nodes that a merge at one level can leave out of
  date: the nodes \<open>A\<close> still to be merged or recomputed at that level, their parents and
  the parents \<open>B\<close> queued for the next level, and the parents of those.
\<close>

definition up :: "MapMarkerSet \<Rightarrow> ptr set \<Rightarrow> ptr set" where
  "up s A = {q. \<exists>p \<in> A. parent_of s p = Some q}"

definition stale :: "MapMarkerSet \<Rightarrow> ptr set \<Rightarrow> ptr set \<Rightarrow> ptr set" where
  "stale s A B = A \<union> (up s A \<union> B) \<union> up s (up s A \<union> B)"

text \<open>The position that lines 603-609 give to the surviving node of a merge.\<close>

definition merged_coords :: "ClusteringNode \<Rightarrow> ClusteringNode \<Rightarrow> real \<times> real" where
  "merged_coords nd md =
     ((fst (gcsCoords nd) * real_of_int (NumberOfMarkers nd) +
       fst (gcsCoords md) * real_of_int (NumberOfMarkers md))
        / real_of_int (NumberOfMarkers nd + NumberOfMarkers md),
      (snd (gcsCoords nd) * real_of_int (NumberOfMarkers nd) +
       snd (gcsCoords md) * real_of_int (NumberOfMarkers md))
        / real_of_int (NumberOfMarkers nd + NumberOfMarkers md))"

text \<open>
  The marker-count-weighted centroid of a list of nodes, as the specification means it:
  the sum of the positions, each multiplied by the node's marker count, divided by the
  sum of the marker counts.
\<close>

definition weighted_centroid :: "ClusteringNode list \<Rightarrow> real \<times> real" where
  "weighted_centroid cds =
     ((\<Sum>cd\<leftarrow>cds. real_of_int (NumberOfMarkers cd) * fst (gcsCoords cd))
        / real_of_int (\<Sum>cd\<leftarrow>cds. NumberOfMarkers cd),
      (\<Sum>cd\<leftarrow>cds. real_of_int (NumberOfMarkers cd) * snd (gcsCoords cd))
        / real_of_int (\<Sum>cd\<leftarrow>cds. NumberOfMarkers cd))"

section \<open>Basic facts\<close>

lemma andThen_Inr_iff: "andThen m f = Inr y \<longleftrightarrow> (\<exists>x. m = Inr x \<and> f x = Inr y)"
  by (cases m) (simp_all add: andThen_def)

lemma andThen_simps [simp]: "andThen (Inr x) f = f x" "andThen (Inl e) f = Inl e"
  by (simp_all add: andThen_def)

section \<open>Materializing twice\<close>

text \<open>
  Claim C8. A second \<^verbatim>\<open>Update\<close> at the same zoom, with nothing added in between, leaves the
  whole object as the first call left it: the emitted points and arrays, the stored node
  list, the changed flag and the remembered level.
\<close>

theorem Update_idempotent:
  assumes "Update zoom s = Inr s1"
  shows "Update zoom s1 = Inr s1"
proof (cases "(\<not> Clustering s \<and> \<not> MarkersChanged s) \<or>
              (Clustering s \<and> \<not> MarkersChanged s \<and>
               (if zoom \<ge> NumberOfClusterLevels then NumberOfClusterLevels - 1 else zoom)
                 = ZoomLevel s)")
  case True
  then have "Update zoom s = Inr s"
    by (auto simp: Update_def Let_def)
  with assms show ?thesis by simp
next
  case False
  with assms obtain points current types colors scales where
    s1: "s1 = s\<lparr>CurrentNodes := current, ColorArray := Some colors,
                 MarkerTypeArray := Some types, MarkerScaleArray := Some scales,
                 PolyPoints := points, MarkersChanged := False,
                 ZoomLevel := (if \<not> Clustering s then 0
                               else (if zoom \<ge> NumberOfClusterLevels
                                     then NumberOfClusterLevels - 1 else zoom))\<rparr>"
    by (auto simp: Update_def Let_def andThen_Inr_iff
             split: option.splits if_splits prod.splits)
  show ?thesis
    unfolding s1 by (simp add: Update_def Let_def)
qed

theorem Update_idempotent_witness:
  "andThen two_near_markers (Update 0) = Inr (projr (andThen two_near_markers (Update 0))) \<and>
   Update 0 (projr (andThen two_near_markers (Update 0)))
     = Inr (projr (andThen two_near_markers (Update 0))) \<and>
   MarkerTypeArray (projr (andThen two_near_markers (Update 0))) = Some [CLUSTER_TYPE]"
proof -
  have a: "two_near_markers = Inr (projr two_near_markers)"
    by code_simp
  have b: "Update 0 (projr two_near_markers) = Inr (projr (Update 0 (projr two_near_markers)))"
    by code_simp
  have c: "MarkerTypeArray (projr (Update 0 (projr two_near_markers))) = Some [CLUSTER_TYPE]"
    by code_simp
  have d: "andThen two_near_markers (Update 0) = Update 0 (projr two_near_markers)"
    by (subst a) simp
  show ?thesis
    using Update_idempotent [OF b] b c unfolding d by simp
qed


section \<open>What a materialization emits\<close>









section \<open>What proximity search returns\<close>








section \<open>What pick resolution returns\<close>

lemma resolve_cells_result:
  "resolve_cells s cells arr cellIds (idSet, markerIds, clusterIds) = Inr (idSet1, markerIds1, clusterIds1)
   \<Longrightarrow> \<exists>points distinctPoints nodes.
         map (originating_point cells arr) cellIds = map Inr points \<and>
         distinct distinctPoints \<and> set distinctPoints = set points - set idSet \<and>
         map (picked s) distinctPoints = map Inr nodes \<and>
         markerIds1 = markerIds @ map MarkerId (filter (\<lambda>nd. NumberOfMarkers nd = 1) nodes) \<and>
         clusterIds1 = clusterIds @ map NodeId (filter (\<lambda>nd. NumberOfMarkers nd \<noteq> 1) nodes)"
proof (induction cellIds arbitrary: idSet markerIds clusterIds)
  case Nil
  then show ?case by simp
next
  case (Cons cellId rest)
  from Cons.prems obtain p where p: "originating_point cells arr cellId = Inr p"
    by (auto simp: andThen_Inr_iff)
  show ?case
  proof (cases "p \<in> set idSet")
    case True
    with Cons.prems p have
      "resolve_cells s cells arr rest (idSet, markerIds, clusterIds) = Inr (idSet1, markerIds1, clusterIds1)"
      by simp
    from Cons.IH [OF this] obtain points distinctPoints nodes where
      r: "map (originating_point cells arr) rest = map Inr points"
         "distinct distinctPoints" "set distinctPoints = set points - set idSet"
         "map (picked s) distinctPoints = map Inr nodes"
         "markerIds1 = markerIds @ map MarkerId (filter (\<lambda>nd. NumberOfMarkers nd = 1) nodes)"
         "clusterIds1 = clusterIds @ map NodeId (filter (\<lambda>nd. NumberOfMarkers nd \<noteq> 1) nodes)"
      by blast
    from r(3) True have "set distinctPoints = set (p # points) - set idSet"
      by auto
    with p r show ?thesis
      by (intro exI [of _ "p # points"] exI [of _ distinctPoints] exI [of _ nodes]) simp
  next
    case False
    with Cons.prems p obtain nd where nd: "picked s p = Inr nd"
      by (auto simp: andThen_Inr_iff picked_def)
    define m where "m = (if NumberOfMarkers nd = 1 then markerIds @ [MarkerId nd] else markerIds)"
    define c where "c = (if NumberOfMarkers nd = 1 then clusterIds else clusterIds @ [NodeId nd])"
    from Cons.prems p False nd have
      "resolve_cells s cells arr rest (p # idSet, m, c) = Inr (idSet1, markerIds1, clusterIds1)"
      by (auto simp: andThen_Inr_iff picked_def m_def c_def split: if_splits)
    from Cons.IH [OF this] obtain points distinctPoints nodes where
      r: "map (originating_point cells arr) rest = map Inr points"
         "distinct distinctPoints" "set distinctPoints = set points - set (p # idSet)"
         "map (picked s) distinctPoints = map Inr nodes"
         "markerIds1 = m @ map MarkerId (filter (\<lambda>nd. NumberOfMarkers nd = 1) nodes)"
         "clusterIds1 = c @ map NodeId (filter (\<lambda>nd. NumberOfMarkers nd \<noteq> 1) nodes)"
      by blast
    from r(2,3) False have "distinct (p # distinctPoints)"
      "set (p # distinctPoints) = set (p # points) - set idSet"
      by auto
    with p nd r(1,4,5,6) show ?thesis
      by (intro exI [of _ "p # points"] exI [of _ "p # distinctPoints"] exI [of _ "nd # nodes"])
         (simp add: m_def c_def)
  qed
qed

text \<open>
  Claim C9. When \<^verbatim>\<open>GetMarkerIds\<close> returns, every selected cell has an originating point;
  each distinct originating point contributes exactly one result, appended to the marker
  ids (the node's \<open>MarkerId\<close>) when the node stored for the point by the last
  materialization has marker count 1, and to the cluster ids (the node's \<open>NodeId\<close>)
  otherwise. A point selected through several cells contributes once.
\<close>

theorem GetMarkerIds_resolution:
  assumes "GetMarkerIds s cells inputPointIdArray cellIds markerIds clusterIds
             = Inr (markerIds1, clusterIds1)"
  shows "\<exists>points distinctPoints nodes.
           map (originating_point cells inputPointIdArray) cellIds = map Inr points \<and>
           distinct distinctPoints \<and> set distinctPoints = set points \<and>
           map (picked s) distinctPoints = map Inr nodes \<and>
           markerIds1 = markerIds @ map MarkerId (filter (\<lambda>nd. NumberOfMarkers nd = 1) nodes) \<and>
           clusterIds1 = clusterIds @ map NodeId (filter (\<lambda>nd. NumberOfMarkers nd \<noteq> 1) nodes)"
proof -
  from assms obtain idSet1 where
    "resolve_cells s cells inputPointIdArray cellIds ([], markerIds, clusterIds)
       = Inr (idSet1, markerIds1, clusterIds1)"
    by (auto simp: GetMarkerIds_def andThen_Inr_iff)
  from resolve_cells_result [OF this] show ?thesis
    by simp
qed

theorem GetMarkerIds_resolution_witness:
  "GetMarkerIds (projr three_markers_shown) [[0, 1, 2], [3, 4, 5], [6, 7, 8], [9, 10, 11]]
      [0, 0, 0, 0, 0, 0, 1, 1, 1, 1, 1, 1] [0, 2, 1, 3] [] [] = Inr ([2], [19]) \<and>
   map (originating_point [[0, 1, 2], [3, 4, 5], [6, 7, 8], [9, 10, 11]]
          [0, 0, 0, 0, 0, 0, 1, 1, 1, 1, 1, 1]) [0, 2, 1, 3] = map Inr [0, 1, 0, 1]"
proof -
  have a: "GetMarkerIds (projr three_markers_shown) [[0, 1, 2], [3, 4, 5], [6, 7, 8], [9, 10, 11]]
      [0, 0, 0, 0, 0, 0, 1, 1, 1, 1, 1, 1] [0, 2, 1, 3] [] [] = Inr ([2], [19])"
    by code_simp
  have b: "map (originating_point [[0, 1, 2], [3, 4, 5], [6, 7, 8], [9, 10, 11]]
          [0, 0, 0, 0, 0, 0, 1, 1, 1, 1, 1, 1]) [0, 2, 1, 3] = map Inr [0, 1, 0, 1]"
    by code_simp
  from GetMarkerIds_resolution [OF a] a b show ?thesis
    by simp
qed


section \<open>Faults of the source\<close>

text \<open>
  Claim C3 describes every merge; a merge into a node of level 0 stops at line 630,
  \<^verbatim>\<open>node->Parent->NumberOfMarkers += n\<close>, because a node of level 0 has no parent. Nodes 39
  and 19 are the level-0 nodes of two markers 120 degrees apart.
\<close>

theorem MergeNodes_null_parent:
  "andThen two_far_markers (\<lambda>s. MergeNodes s (Some 39) 19 [] 0) = Inl NullDereference"
  by code_simp

text \<open>
  Claim C4 says that \<^verbatim>\<open>AddMarker\<close> always returns an id. With clustering enabled, after
  markers at longitudes 0 and 120, a marker at longitude 100 joins the second marker's
  cluster at level 2; the refinement then finds the first marker's node within the
  threshold at level 0 and calls \<^verbatim>\<open>MergeNodes\<close> there, which dereferences the null parent.
\<close>

theorem AddMarker_null_parent:
  "andThen two_far_markers (AddMarker (\<lambda>lat. lat) 0 100) = Inl NullDereference"
  by code_simp

text \<open>
  Claim C5 expects one point entry per marker when clustering is disabled. \<^verbatim>\<open>AddMarker\<close>
  then stores the node in no level, and \<^verbatim>\<open>Update\<close> reads level 0: nothing is emitted.
\<close>

theorem Update_without_clustering_empty:
  "andThen (AddMarkers (\<lambda>lat. lat) [(0, 0), (0, 120)] (Init constructor)) (\<lambda>(markerIds, s).
   andThen (Update 0 s) (\<lambda>s1. Inr (markerIds, PolyPoints s1, MarkerTypeArray s1)))
     = Inr ([0, 1], [], Some [])"
  by code_simp

text \<open>
  Claim C6 expects a negative zoom level to be clamped. Only the upper bound is clipped
  (lines 389-392); with clustering enabled a negative zoom indexes the level table out of
  range.
\<close>

theorem Update_negative_zoom:
  "andThen two_far_markers (Update (- 1)) = Inl IndexOutOfRange"
  by code_simp

section \<open>The finest level is never merged\<close>

lemma lookup_update: "lookup (h[a := v]) b = (if a = b \<and> a < length h then v else lookup h b)"
  by (auto simp: lookup_def)

lemma lookup_append: "lookup (h @ [v]) b = (if b = length h then v else lookup h b)"
  by (auto simp: lookup_def nth_append)

lemma lookup_Some_less: "lookup h a = Some nd \<Longrightarrow> a < length h"
  by (auto simp: lookup_def split: if_splits)

lemma leaf_frame_refl: "leaf_frame s s"
  by (auto simp: leaf_frame_def)

lemma leaf_frame_trans:
  assumes "leaf_frame s s1" "leaf_frame s1 s2"
  shows "leaf_frame s s2"
  unfolding leaf_frame_def
proof (intro conjI allI impI)
  show "length (Store s) \<le> length (Store s2)"
    using assms by (simp add: leaf_frame_def)
next
  fix p nd'
  assume p: "p < length (Store s)" and l: "lookup (Store s2) p = Some nd'"
  from p assms(1) have "p < length (Store s1)"
    by (simp add: leaf_frame_def)
  with l assms(2) obtain nd1 where n1: "lookup (Store s1) p = Some nd1" "Level nd' = Level nd1"
    unfolding leaf_frame_def by blast
  with p assms(1) obtain nd where "lookup (Store s) p = Some nd" "Level nd1 = Level nd"
    unfolding leaf_frame_def by blast
  with n1 show "\<exists>nd. lookup (Store s) p = Some nd \<and> Level nd' = Level nd"
    by simp
next
  fix p nd
  assume l: "lookup (Store s) p = Some nd" and f: "Level nd = finest"
  with assms(1) obtain nd1 where n1: "lookup (Store s1) p = Some nd1" "nd1 = nd\<lparr>Parent := Parent nd1\<rparr>"
    unfolding leaf_frame_def by blast
  then have "Level nd1 = finest"
    using f by (metis ClusteringNode.select_convs(2) ClusteringNode.surjective ClusteringNode.update_convs(4))
  with n1 assms(2) obtain nd2 where n2: "lookup (Store s2) p = Some nd2" "nd2 = nd1\<lparr>Parent := Parent nd2\<rparr>"
    unfolding leaf_frame_def by blast
  from n1(2) n2(2) have "nd2 = nd\<lparr>Parent := Parent nd2\<rparr>"
    by (metis ClusteringNode.update_convs(4) ClusteringNode.surjective ClusteringNode.select_convs)
  with n2 show "\<exists>nd'. lookup (Store s2) p = Some nd' \<and> nd' = nd\<lparr>Parent := Parent nd'\<rparr>"
    by blast
qed (use assms in \<open>simp_all add: leaf_frame_def\<close>)

lemma coarse_frame: "coarse s q \<Longrightarrow> leaf_frame s s' \<Longrightarrow> coarse s' q"
  unfolding coarse_def leaf_frame_def
  by (metis le_trans not_le)


lemma deref_Some_iff: "deref s (Some a) = Inr nd \<longleftrightarrow> lookup (Store s) a = Some nd"
  by (simp add: deref_def split: option.splits)

lemma deref_Inr_D: "deref s p = Inr nd \<Longrightarrow> \<exists>a. p = Some a \<and> lookup (Store s) a = Some nd"
  by (cases p) (simp_all add: deref_def split: option.splits)

lemma modify_Inr_iff:
  "modify s p f = Inr s' \<longleftrightarrow>
     (\<exists>a nd. p = Some a \<and> lookup (Store s) a = Some nd \<and> s' = assign s a (f nd))"
  by (cases p) (auto simp: modify_def split: option.splits)

lemma modify_leaf:
  assumes m: "modify s p f = Inr s'"
    and inv: "leaf_inv s"
    and f: "\<And>a nd. p = Some a \<Longrightarrow> lookup (Store s) a = Some nd \<Longrightarrow>
               Level (f nd) = Level nd \<and>
               (Level nd = finest \<longrightarrow> f nd = nd\<lparr>Parent := Parent (f nd)\<rparr>) \<and>
               (\<forall>q. Parent (f nd) = Some q \<longrightarrow> coarse s q)"
  shows "leaf_inv s' \<and> leaf_frame s s'"
proof -
  from m obtain a nd where p: "p = Some a" and l: "lookup (Store s) a = Some nd"
    and s': "s' = assign s a (f nd)"
    by (auto simp: modify_Inr_iff)
  note fa = f [OF p l]
  have a: "a < length (Store s)"
    using l by (rule lookup_Some_less)
  have look: "\<And>b. lookup (Store s') b = (if b = a then Some (f nd) else lookup (Store s) b)"
    using a by (auto simp: s' assign_def lookup_update)
  have len: "length (Store s') = length (Store s)" and tab: "NodeTable s' = NodeTable s"
    by (simp_all add: s' assign_def)
  have co: "\<And>q. coarse s q \<Longrightarrow> coarse s' q"
    using fa l by (auto simp: coarse_def look len)
  have flds: "Clustering s' = Clustering s" "ClusterDistance s' = ClusterDistance s"
    "InternalsNumberOfMarkers s' = InternalsNumberOfMarkers s"
    by (simp_all add: s' assign_def)
  have fr: "leaf_frame s s'"
    unfolding leaf_frame_def
    using fa l by (auto simp: look len tab flds)
  have "leaf_inv s'"
    unfolding leaf_inv_def
  proof (intro conjI allI impI ballI)
    show "length (NodeTable s') = 20"
      using inv by (simp add: tab leaf_inv_def)
  next
    fix l p assume "l < (19::nat)" "p \<in> set (NodeTable s' ! l)"
    with inv show "coarse s' p"
      by (auto simp: tab leaf_inv_def intro: co)
  next
    fix p nd' q assume "lookup (Store s') p = Some nd'" "Parent nd' = Some q"
    with inv fa show "coarse s' q"
      by (auto simp: look leaf_inv_def intro: co split: if_splits)
  next
    fix p assume "p \<in> set (NodeTable s' ! 19)"
    with inv obtain nd0 where "lookup (Store s) p = Some nd0" "Level nd0 = finest"
      by (auto simp: tab leaf_inv_def)
    with fa l show "\<exists>nd. lookup (Store s') p = Some nd \<and> Level nd = finest"
      by (auto simp: look)
  qed
  with fr show ?thesis by simp
qed


lemma modify_coarse:
  assumes "modify s p f = Inr s'" "leaf_inv s" "\<And>a. p = Some a \<Longrightarrow> coarse s a"
    and "\<And>nd. Level (f nd) = Level nd \<and> Parent (f nd) = Parent nd"
  shows "leaf_inv s' \<and> leaf_frame s s'"
proof (rule modify_leaf [OF assms(1,2)])
  fix a nd assume p: "p = Some a" and l: "lookup (Store s) a = Some nd"
  from assms(3) [OF p] l have "Level nd \<noteq> finest"
    by (simp add: coarse_def)
  moreover from assms(2) l have "\<forall>q. Parent nd = Some q \<longrightarrow> coarse s q"
    unfolding leaf_inv_def by blast
  ultimately show "Level (f nd) = Level nd \<and>
       (Level nd = finest \<longrightarrow> f nd = nd\<lparr>Parent := Parent (f nd)\<rparr>) \<and>
       (\<forall>q. Parent (f nd) = Some q \<longrightarrow> coarse s q)"
    using assms(4) [of nd] by simp
qed

lemma modify_parent:
  assumes "modify s p (\<lambda>nd. nd\<lparr>Parent := q\<rparr>) = Inr s'" "leaf_inv s"
    and "\<And>a. q = Some a \<Longrightarrow> coarse s a"
  shows "leaf_inv s' \<and> leaf_frame s s'"
  by (rule modify_leaf [OF assms(1,2)]) (use assms(3) in auto)

lemma irrelevant_fields [simp]:
  "leaf_inv (s\<lparr>AllNodes := x\<rparr>) = leaf_inv s"
  "leaf_inv (s\<lparr>NumberOfNodes := y\<rparr>) = leaf_inv s"
  "leaf_inv (s\<lparr>MarkersChanged := z\<rparr>) = leaf_inv s"
  "leaf_frame s0 (s\<lparr>AllNodes := x\<rparr>) = leaf_frame s0 s"
  "leaf_frame s0 (s\<lparr>NumberOfNodes := y\<rparr>) = leaf_frame s0 s"
  "leaf_frame s0 (s\<lparr>MarkersChanged := z\<rparr>) = leaf_frame s0 s"
  "coarse (s\<lparr>AllNodes := x\<rparr>) = coarse s"
  "coarse (s\<lparr>NumberOfNodes := y\<rparr>) = coarse s"
  "coarse (s\<lparr>MarkersChanged := z\<rparr>) = coarse s"
  by (simp_all add: leaf_inv_def leaf_frame_def coarse_def fun_eq_iff)

lemma table_at_Inr_iff:
  "table_at s l = Inr xs \<longleftrightarrow> 0 \<le> l \<and> l < int (length (NodeTable s)) \<and> xs = NodeTable s ! nat l"
  by (auto simp: table_at_def)

lemma table_put_leaf:
  assumes "leaf_inv s" "0 \<le> l" "l < 19" "\<forall>p \<in> set xs. coarse s p"
  shows "leaf_inv (table_put s l xs) \<and> leaf_frame s (table_put s l xs)"
proof -
  have st: "Store (table_put s l xs) = Store s"
    by (simp add: table_put_def)
  have co: "\<And>q. coarse (table_put s l xs) q = coarse s q"
    by (simp add: coarse_def st)
  have n: "nat l < 19" "nat l < length (NodeTable s)"
    using assms by (simp_all add: leaf_inv_def)
  have tab: "\<And>k. k < 20 \<Longrightarrow> NodeTable (table_put s l xs) ! k = (if k = nat l then xs else NodeTable s ! k)"
    using assms(1) by (simp add: table_put_def leaf_inv_def)
  have "leaf_frame s (table_put s l xs)"
    using n by (auto simp: leaf_frame_def st tab) (simp_all add: table_put_def)
  moreover have "leaf_inv (table_put s l xs)"
    using assms n unfolding leaf_inv_def
    by (auto simp: st co tab) (simp add: table_put_def)
  ultimately show ?thesis by simp
qed

lemma alloc_leaf:
  assumes "leaf_inv s" "Level nd \<noteq> finest" "Parent nd = None"
  shows "leaf_inv (fst (new_node s nd)) \<and> leaf_frame s (fst (new_node s nd)) \<and>
         coarse (fst (new_node s nd)) (snd (new_node s nd))"
proof -
  define s' where "s' = fst (new_node s nd)"
  have look: "\<And>b. lookup (Store s') b = (if b = length (Store s) then Some nd else lookup (Store s) b)"
    by (simp add: s'_def new_node_def lookup_append)
  have len: "length (Store s') = Suc (length (Store s))" and tab: "NodeTable s' = NodeTable s"
    and flds: "Clustering s' = Clustering s" "ClusterDistance s' = ClusterDistance s"
    "InternalsNumberOfMarkers s' = InternalsNumberOfMarkers s"
    by (simp_all add: s'_def new_node_def)
  have nl: "\<And>x. lookup (Store s) (length (Store s)) \<noteq> Some x"
    by (simp add: lookup_def)
  have co: "\<And>q. coarse s q \<Longrightarrow> coarse s' q"
    by (auto simp: coarse_def look len)
  have "leaf_frame s s'"
    unfolding leaf_frame_def using nl by (auto simp: look len tab flds)
  moreover have "leaf_inv s'"
    unfolding leaf_inv_def
  proof (intro conjI allI impI ballI)
    show "length (NodeTable s') = 20"
      using assms(1) by (simp add: tab leaf_inv_def)
  next
    fix l p assume "l < (19::nat)" "p \<in> set (NodeTable s' ! l)"
    with assms(1) show "coarse s' p"
      by (auto simp: tab leaf_inv_def intro: co)
  next
    fix p nd' q assume "lookup (Store s') p = Some nd'" "Parent nd' = Some q"
    with assms show "coarse s' q"
      by (auto simp: look leaf_inv_def intro: co split: if_splits)
  next
    fix p assume "p \<in> set (NodeTable s' ! 19)"
    with assms(1) obtain nd0 where n0: "lookup (Store s) p = Some nd0" "Level nd0 = finest"
      by (auto simp: tab leaf_inv_def)
    then have "p \<noteq> length (Store s)"
      using nl by auto
    with n0 show "\<exists>nd. lookup (Store s') p = Some nd \<and> Level nd = finest"
      by (simp add: look)
  qed
  moreover have "coarse s' (length (Store s))"
    using assms(2) by (simp add: coarse_def look len)
  ultimately show ?thesis
    by (simp add: s'_def [symmetric]) (simp add: new_node_def)
qed

lemma delete_leaf:
  assumes "leaf_inv s" "coarse s a"
  shows "leaf_inv (delete_node s a) \<and> leaf_frame s (delete_node s a)"
proof -
  define s' where "s' = delete_node s a"
  have look: "\<And>b. lookup (Store s') b = (if b = a then None else lookup (Store s) b)"
    using assms(2) by (auto simp: s'_def delete_node_def lookup_update coarse_def)
  have len: "length (Store s') = length (Store s)" and tab: "NodeTable s' = NodeTable s"
    and flds: "Clustering s' = Clustering s" "ClusterDistance s' = ClusterDistance s"
    "InternalsNumberOfMarkers s' = InternalsNumberOfMarkers s"
    by (simp_all add: s'_def delete_node_def)
  have co: "\<And>q. coarse s q \<Longrightarrow> coarse s' q"
    by (auto simp: coarse_def look len)
  have "leaf_frame s s'"
    unfolding leaf_frame_def using assms(2) by (auto simp: look len tab flds coarse_def)
  moreover have "leaf_inv s'"
    using assms unfolding leaf_inv_def
    by (auto simp: look tab coarse_def [of s a] intro: co split: if_splits)
  ultimately show ?thesis
    by (simp add: s'_def)
qed


lemma parent_coarse:
  "leaf_inv s \<Longrightarrow> deref s p = Inr nd \<Longrightarrow> Parent nd = Some q \<Longrightarrow> coarse s q"
  unfolding leaf_inv_def by (auto dest!: deref_Inr_D)

lemma set_set_insert [simp]: "set (set_insert x xs) = insert x (set xs)"
  by (induction xs) auto

lemma set_set_erase [simp]: "set (set_erase x xs) = set xs - {x}"
  by (auto simp: set_erase_def)

lemma merge_coords_leaf:
  assumes "merge_coords s node m = Inr s'" "leaf_inv s" "\<And>a. node = Some a \<Longrightarrow> coarse s a"
  shows "leaf_inv s' \<and> leaf_frame s s'"
proof -
  from assms(1) obtain f where
    "modify s node f = Inr s'" "\<And>nd. Level (f nd) = Level nd \<and> Parent (f nd) = Parent nd"
    by (auto simp: merge_coords_def andThen_Inr_iff Let_def)
  then show ?thesis
    using assms(2,3) by (intro modify_coarse [of s node f s']) auto
qed

lemma reparent_leaf:
  assumes "reparent s node cs = Inr s'" "leaf_inv s" "\<And>a. node = Some a \<Longrightarrow> coarse s a"
  shows "leaf_inv s' \<and> leaf_frame s s'"
  using assms
proof (induction cs arbitrary: s)
  case Nil
  then show ?case by (simp add: leaf_frame_refl)
next
  case (Cons c cs)
  from Cons.prems(1) obtain s1 s2 where
    m1: "modify s node (\<lambda>nd. nd\<lparr>Children := set_insert c (Children nd)\<rparr>) = Inr s1" and
    m2: "modify s1 (Some c) (\<lambda>cd. cd\<lparr>Parent := node\<rparr>) = Inr s2" and
    r: "reparent s2 node cs = Inr s'"
    by (auto simp: andThen_Inr_iff)
  from m1 Cons.prems(2,3) have 1: "leaf_inv s1 \<and> leaf_frame s s1"
    by (intro modify_coarse [OF m1]) auto
  then have c1: "\<And>a. node = Some a \<Longrightarrow> coarse s1 a"
    using Cons.prems(3) coarse_frame by blast
  from m2 1 c1 have 2: "leaf_inv s2 \<and> leaf_frame s1 s2"
    by (intro modify_parent [OF m2]) auto
  then have c2: "\<And>a. node = Some a \<Longrightarrow> coarse s2 a"
    using c1 coarse_frame by blast
  from Cons.IH [OF r] 2 c2 have "leaf_inv s' \<and> leaf_frame s2 s'"
    by blast
  with 1 2 show ?case
    using leaf_frame_trans by blast
qed

lemma reparent_children_leaf:
  assumes "reparent_children s node m = Inr s'" "leaf_inv s" "\<And>a. node = Some a \<Longrightarrow> coarse s a"
  shows "leaf_inv s' \<and> leaf_frame s s'"
  using assms
  by (auto simp: reparent_children_def andThen_Inr_iff dest!: reparent_leaf)

lemma adjust_parent_counts_leaf:
  assumes "adjust_parent_counts s node m = Inr s'" "leaf_inv s"
  shows "leaf_inv s' \<and> leaf_frame s s'"
proof -
  from assms(1) obtain md nd s1 md1 f g where
    d: "deref s node = Inr nd" and
    m1: "modify s (Parent nd) f = Inr s1" and
    f: "\<And>x. Level (f x) = Level x \<and> Parent (f x) = Parent x" and
    d1: "deref s1 (Some m) = Inr md1" and
    m2: "modify s1 (Parent md1) g = Inr s'" and
    g: "\<And>x. Level (g x) = Level x \<and> Parent (g x) = Parent x"
    by (auto simp: adjust_parent_counts_def andThen_Inr_iff Let_def)
  have 1: "leaf_inv s1 \<and> leaf_frame s s1"
    using parent_coarse [OF assms(2) d] f by (intro modify_coarse [OF m1 assms(2)]) auto
  then have 2: "leaf_inv s' \<and> leaf_frame s1 s'"
    using parent_coarse [OF _ d1] g by (intro modify_coarse [OF m2]) auto
  with 1 show ?thesis
    using leaf_frame_trans by blast
qed

lemma detach_from_parent_leaf:
  assumes "detach_from_parent s m = Inr s'" "leaf_inv s"
  shows "leaf_inv s' \<and> leaf_frame s s'"
proof -
  from assms(1) obtain md f where
    d: "deref s (Some m) = Inr md" and
    m1: "modify s (Parent md) f = Inr s'" and
    f: "\<And>x. Level (f x) = Level x \<and> Parent (f x) = Parent x"
    by (auto simp: detach_from_parent_def andThen_Inr_iff)
  show ?thesis
    using parent_coarse [OF assms(2) d] f by (intro modify_coarse [OF m1 assms(2)]) auto
qed

lemma remember_parent_coarse:
  assumes "remember_parent s node m ptm = Inr ptm'" "leaf_inv s" "\<forall>p \<in> set ptm. coarse s p"
  shows "\<forall>p \<in> set ptm'. coarse s p"
proof -
  from assms(1) obtain md where d: "deref s (Some m) = Inr md"
    by (auto simp: remember_parent_def andThen_Inr_iff)
  with assms(1) have "set ptm' \<subseteq> set ptm \<union> {q. Parent md = Some q}"
    by (auto simp: remember_parent_def andThen_Inr_iff split: option.splits if_splits)
  with assms(3) parent_coarse [OF assms(2) d] show ?thesis
    by auto
qed

lemma delete_node_AllNodes:
  "delete_node (s\<lparr>AllNodes := x\<rparr>) a = (delete_node s a)\<lparr>AllNodes := x\<rparr>"
  by (simp add: delete_node_def)

lemma delete_merging_leaf:
  assumes "delete_merging s m l = Inr s'" "leaf_inv s" "coarse s m" "l < 19"
  shows "leaf_inv s' \<and> leaf_frame s s'"
proof -
  from assms(1) obtain nodeSet where
    t: "table_at s l = Inr nodeSet"
    by (auto simp: delete_merging_def andThen_Inr_iff)
  define s1 where "s1 = (if m \<in> set nodeSet then table_put s l (set_erase m nodeSet) else s)"
  from assms(1) t have "\<exists>md. deref s1 (Some m) = Inr md \<and>
      s' = (delete_node s1 m)\<lparr>AllNodes := (AllNodes s1)[nat (NodeId md) := None]\<rparr>"
    by (simp add: delete_merging_def Let_def s1_def andThen_Inr_iff delete_node_AllNodes
             split: if_splits)
  then obtain x where s': "s' = (delete_node s1 m)\<lparr>AllNodes := x\<rparr>"
    by blast
  from t have l: "0 \<le> l" "nodeSet = NodeTable s ! nat l"
    by (simp_all add: table_at_Inr_iff)
  have "nat l < 19"
    using assms(4) l(1) by simp
  with assms(2) l(2) have "\<forall>p \<in> set nodeSet. coarse s p"
    unfolding leaf_inv_def by blast
  then have 1: "leaf_inv s1 \<and> leaf_frame s s1"
    unfolding s1_def
    using table_put_leaf [OF assms(2) l(1) assms(4), of "set_erase m nodeSet"]
    by (auto simp: leaf_frame_refl assms(2))
  then have "coarse s1 m"
    using assms(3) coarse_frame by blast
  with 1 have "leaf_inv (delete_node s1 m) \<and> leaf_frame s1 (delete_node s1 m)"
    by (intro delete_leaf) auto
  with 1 show ?thesis
    unfolding s' using leaf_frame_trans by auto
qed

lemma MergeNodes_leaf:
  assumes "MergeNodes s node m ptm l = Inr (s', ptm')" "leaf_inv s"
    and "\<And>a. node = Some a \<Longrightarrow> coarse s a" "coarse s m" "\<forall>p \<in> set ptm. coarse s p" "l < 19"
  shows "leaf_inv s' \<and> leaf_frame s s' \<and> (\<forall>p \<in> set ptm'. coarse s' p)"
proof -
  from assms(1) obtain s1 s2 s3 s4 where
    1: "merge_coords s node m = Inr s1" and
    2: "reparent_children s1 node m = Inr s2" and
    3: "adjust_parent_counts s2 node m = Inr s3" and
    4: "detach_from_parent s3 m = Inr s4" and
    5: "remember_parent s4 node m ptm = Inr ptm'" and
    6: "delete_merging s4 m l = Inr s'"
    by (auto simp: MergeNodes_def andThen_Inr_iff)
  have i1: "leaf_inv s1 \<and> leaf_frame s s1"
    using merge_coords_leaf [OF 1 assms(2,3)] by simp
  then have c1: "\<And>a. node = Some a \<Longrightarrow> coarse s1 a"
    using assms(3) coarse_frame by blast
  have i2: "leaf_inv s2 \<and> leaf_frame s1 s2"
    using reparent_children_leaf [OF 2 _ c1] i1 by simp
  have i3: "leaf_inv s3 \<and> leaf_frame s2 s3"
    using adjust_parent_counts_leaf [OF 3] i2 by simp
  have i4: "leaf_inv s4 \<and> leaf_frame s3 s4"
    using detach_from_parent_leaf [OF 4] i3 by simp
  have f4: "leaf_frame s s4"
    using i1 i2 i3 i4 leaf_frame_trans by blast
  then have c4: "coarse s4 m" "\<forall>p \<in> set ptm. coarse s4 p"
    using assms(4,5) coarse_frame by blast+
  have p: "\<forall>p \<in> set ptm'. coarse s4 p"
    using remember_parent_coarse [OF 5 _ c4(2)] i4 by simp
  have i5: "leaf_inv s' \<and> leaf_frame s4 s'"
    using delete_merging_leaf [OF 6 _ c4(1) assms(6)] i4 by simp
  with f4 p show ?thesis
    using leaf_frame_trans coarse_frame by blast
qed

lemma scan_closest_mem:
  "scan_closest s node xs (c0, d0) = Inr (c, d) \<Longrightarrow> c = c0 \<or> (\<exists>x \<in> set xs. c = Some x)"
  by (induction xs arbitrary: c0 d0) (auto split: sum.splits if_splits)


lemma FindClosestNode_mem:
  assumes "FindClosestNode s node l thr = Inr (Some c)"
  shows "0 \<le> l \<and> l < int (length (NodeTable s)) \<and> c \<in> set (NodeTable s ! nat l)"
proof -
  from assms obtain nodeSet d where
    t: "table_at s l = Inr nodeSet" and
    sc: "scan_closest s node nodeSet (None, gcsThreshold2 l thr) = Inr (Some c, d)"
    by (auto simp: FindClosestNode_def split: sum.splits)
  from scan_closest_mem [OF sc] t show ?thesis
    by (auto simp: table_at_Inr_iff)
qed


lemma table_coarse:
  "leaf_inv s \<Longrightarrow> 0 \<le> l \<Longrightarrow> l < 19 \<Longrightarrow> c \<in> set (NodeTable s ! nat l) \<Longrightarrow> coarse s c"
proof -
  assume a: "leaf_inv s" "0 \<le> l" "l < 19" "c \<in> set (NodeTable s ! nat l)"
  then have "nat l < 19" by simp
  with a(1,4) show ?thesis
    unfolding leaf_inv_def by blast
qed


lemma climb_merge_leaf:
  assumes "climb_merge s node c = Inr s'" "leaf_inv s" "coarse s c"
  shows "leaf_inv s' \<and> leaf_frame s s'"
proof -
  from assms(1) obtain f s1 where
    m1: "modify s (Some c) f = Inr s1" and
    f: "\<And>x. Level (f x) = Level x \<and> Parent (f x) = Parent x" and
    m2: "modify s1 (Some node) (\<lambda>nd. nd\<lparr>Parent := Some c\<rparr>) = Inr s'"
    by (auto simp: climb_merge_def andThen_Inr_iff Let_def)
  have 1: "leaf_inv s1 \<and> leaf_frame s s1"
    using assms(3) f by (intro modify_coarse [OF m1 assms(2)]) auto
  then have "coarse s1 c"
    using assms(3) coarse_frame by blast
  with 1 have "leaf_inv s' \<and> leaf_frame s1 s'"
    by (intro modify_parent [OF m2]) auto
  with 1 show ?thesis
    using leaf_frame_trans by blast
qed


lemma finest_eq: "finest = 19"
  by (simp add: finest_def NumberOfClusterLevels_def)


lemma climb_copy_leaf:
  assumes "climb_copy s node l = Inr (s', newNode)" "leaf_inv s" "l < 19"
  shows "leaf_inv s' \<and> leaf_frame s s'"
proof -
  from assms(1) obtain nd where nd: "deref s (Some node) = Inr nd"
    by (auto simp: climb_copy_def andThen_Inr_iff)
  define cp where "cp = \<lparr>NodeId = NumberOfNodes s, Level = l, gcsCoords = gcsCoords nd,
               Parent = None, Children = [node],
               NumberOfMarkers = NumberOfMarkers nd, MarkerId = MarkerId nd\<rparr>"
  define s1 where "s1 = fst (new_node s cp)"
  define s2 where "s2 = s1\<lparr>AllNodes := AllNodes s1 @ [Some (snd (new_node s cp))],
                   NumberOfNodes := NumberOfNodes s1 + 1\<rparr>"
  from assms(1) nd obtain nodeSet where
    t: "table_at s2 l = Inr nodeSet" and
    m: "modify (table_put s2 l (set_insert (snd (new_node s cp)) nodeSet)) (Some node)
          (\<lambda>nd. nd\<lparr>Parent := Some (snd (new_node s cp))\<rparr>) = Inr s'"
    by (auto simp: climb_copy_def andThen_Inr_iff Let_def cp_def s1_def s2_def
             split: prod.splits)
  have 1: "leaf_inv s1 \<and> leaf_frame s s1 \<and> coarse s1 (snd (new_node s cp))"
    unfolding s1_def using assms(3) by (intro alloc_leaf [OF assms(2)]) (simp_all add: cp_def finest_eq)
  then have 2: "leaf_inv s2 \<and> leaf_frame s s2 \<and> coarse s2 (snd (new_node s cp))"
    by (simp add: s2_def)
  from t have l: "0 \<le> l" "nodeSet = NodeTable s2 ! nat l"
    by (simp_all add: table_at_Inr_iff)
  define s3 where "s3 = table_put s2 l (set_insert (snd (new_node s cp)) nodeSet)"
  have "\<forall>p \<in> set (set_insert (snd (new_node s cp)) nodeSet). coarse s2 p"
    using 2 l assms(3) table_coarse [of s2 l] by auto
  then have 3: "leaf_inv s3 \<and> leaf_frame s2 s3"
    unfolding s3_def using 2 l(1) assms(3) by (intro table_put_leaf) auto
  then have "coarse s3 (snd (new_node s cp))"
    using 2 coarse_frame by blast
  with 3 m have "leaf_inv s' \<and> leaf_frame s3 s'"
    unfolding s3_def [symmetric] by (intro modify_parent [OF m [folded s3_def]]) auto
  with 2 3 show ?thesis
    using leaf_frame_trans by blast
qed


lemma climb_leaf:
  assumes "climb n thr node s = Inr (s', node1, level1)" "leaf_inv s" "n \<le> 19"
  shows "leaf_inv s' \<and> leaf_frame s s' \<and> level1 < 19"
  using assms
proof (induction n arbitrary: node s)
  case 0
  then show ?case by (simp add: leaf_frame_refl)
next
  case (Suc l)
  from Suc.prems(1) obtain closest where
    fc: "FindClosestNode s (Some node) (int l) thr = Inr closest"
    by (auto simp: andThen_Inr_iff)
  show ?case
  proof (cases closest)
    case (Some c)
    with Suc.prems(1) fc have cm: "climb_merge s node c = Inr s'" and l1: "level1 = int l"
      by (auto simp: andThen_Inr_iff)
    from FindClosestNode_mem [OF fc [unfolded Some]] Suc.prems(2,3) have "coarse s c"
      by (intro table_coarse [of s "int l"]) auto
    from climb_merge_leaf [OF cm Suc.prems(2) this] l1 Suc.prems(3) show ?thesis
      by simp
  next
    case None
    with Suc.prems(1) fc obtain s1 newNode where
      cc: "climb_copy s node (int l) = Inr (s1, newNode)" and
      r: "climb l thr newNode s1 = Inr (s', node1, level1)"
      by (auto simp: andThen_Inr_iff)
    from climb_copy_leaf [OF cc Suc.prems(2)] Suc.prems(3) have 1: "leaf_inv s1 \<and> leaf_frame s s1"
      by simp
    with Suc.IH [OF r] Suc.prems(3) have "leaf_inv s' \<and> leaf_frame s1 s' \<and> level1 < 19"
      by simp
    with 1 show ?thesis
      using leaf_frame_trans by blast
  qed
qed


lemma recompute_leaf:
  assumes "recompute s node = Inr s'" "leaf_inv s" "\<And>a. node = Some a \<Longrightarrow> coarse s a"
  shows "leaf_inv s' \<and> leaf_frame s s'"
proof -
  from assms(1) obtain f where
    "modify s node f = Inr s'" "\<And>nd. Level (f nd) = Level nd \<and> Parent (f nd) = Parent nd"
    by (auto simp: recompute_def andThen_Inr_iff)
  then show ?thesis
    using assms(2,3) by (intro modify_coarse [of s node f s']) auto
qed


lemma merge_queued_leaf:
  assumes "merge_queued s node ms ptm l = Inr (s', ptm')" "leaf_inv s"
    and "\<And>a. node = Some a \<Longrightarrow> coarse s a" "\<forall>m \<in> set ms. coarse s m"
    and "\<forall>p \<in> set ptm. coarse s p" "l < 19"
  shows "leaf_inv s' \<and> leaf_frame s s' \<and> (\<forall>p \<in> set ptm'. coarse s' p)"
  using assms
proof (induction ms arbitrary: s ptm)
  case Nil
  then show ?case by (simp add: leaf_frame_refl)
next
  case (Cons m ms)
  show ?case
  proof (cases "node = Some m")
    case True
    with Cons.prems(1) have "merge_queued s node ms ptm l = Inr (s', ptm')"
      by simp
    from Cons.IH [OF this Cons.prems(2,3) _ Cons.prems(5,6)] Cons.prems(4) show ?thesis
      by simp
  next
    case False
    with Cons.prems(1) obtain s1 ptm1 where
      mn: "MergeNodes s node m ptm l = Inr (s1, ptm1)" and
      r: "merge_queued s1 node ms ptm1 l = Inr (s', ptm')"
      by (auto simp: andThen_Inr_iff)
    from MergeNodes_leaf [OF mn Cons.prems(2,3) _ Cons.prems(5,6)] Cons.prems(4)
    have 1: "leaf_inv s1 \<and> leaf_frame s s1 \<and> (\<forall>p \<in> set ptm1. coarse s1 p)"
      by simp
    then have c: "\<And>a. node = Some a \<Longrightarrow> coarse s1 a" "\<forall>m \<in> set ms. coarse s1 m"
      using Cons.prems(3,4) coarse_frame by (blast, auto)
    from Cons.IH [OF r _ c(1) c(2) _ Cons.prems(6)] 1
    have "leaf_inv s' \<and> leaf_frame s1 s' \<and> (\<forall>p \<in> set ptm'. coarse s' p)"
      by simp
    with 1 show ?thesis
      using leaf_frame_trans by blast
  qed
qed


lemma refine_Suc_D:
  "refine (Suc l) thr node ms s = Inr s' \<Longrightarrow>
     (\<exists>s1 ptm s2 closest s3 ptm1 nd.
        merge_queued s node ms [] (int l) = Inr (s1, ptm) \<and>
        recompute s1 node = Inr s2 \<and>
        FindClosestNode s2 node (int l) thr = Inr closest \<and>
        (case closest of None \<Rightarrow> Inr (s2, ptm)
          | Some c \<Rightarrow> MergeNodes s2 node c ptm (int l)) = Inr (s3, ptm1) \<and>
        deref s3 node = Inr nd \<and>
        refine l thr (Parent nd) ptm1 s3 = Inr s')"
  by (simp add: andThen_Inr_iff)

lemma closest_step_leaf:
  assumes fc: "FindClosestNode s2 node l thr = Inr closest"
    and mc: "(case closest of None \<Rightarrow> Inr (s2, ptm)
          | Some c \<Rightarrow> MergeNodes s2 node c ptm l) = Inr (s3, ptm1)"
    and inv: "leaf_inv s2"
    and c2: "\<And>a. node = Some a \<Longrightarrow> coarse s2 a" "\<forall>p \<in> set ptm. coarse s2 p"
    and l: "l < 19"
  shows "leaf_inv s3 \<and> leaf_frame s2 s3 \<and> (\<forall>p \<in> set ptm1. coarse s3 p)"
proof (cases closest)
  case None
  with mc inv c2 show ?thesis by (simp add: leaf_frame_refl)
next
  case (Some c)
  with mc have mn: "MergeNodes s2 node c ptm l = Inr (s3, ptm1)"
    by simp
  from FindClosestNode_mem [OF fc [unfolded Some]]
  have "0 \<le> l" "c \<in> set (NodeTable s2 ! nat l)"
    by simp_all
  then have "coarse s2 c"
    using inv l by (intro table_coarse [of s2 l]) simp_all
  then show ?thesis
    using c2(2) by (intro MergeNodes_leaf [OF mn inv c2(1) _ _ l]) auto
qed

lemma refine_step_leaf:
  assumes mq: "merge_queued s node ms [] l = Inr (s1, ptm)"
    and rc: "recompute s1 node = Inr s2"
    and fc: "FindClosestNode s2 node l thr = Inr closest"
    and mc: "(case closest of None \<Rightarrow> Inr (s2, ptm)
          | Some c \<Rightarrow> MergeNodes s2 node c ptm l) = Inr (s3, ptm1)"
    and inv: "leaf_inv s"
    and c: "\<And>a. node = Some a \<Longrightarrow> coarse s a" "\<forall>m \<in> set ms. coarse s m"
    and l: "l < 19"
  shows "leaf_inv s3 \<and> leaf_frame s s3 \<and> (\<forall>p \<in> set ptm1. coarse s3 p)"
proof -
  have 1: "leaf_inv s1 \<and> leaf_frame s s1 \<and> (\<forall>p \<in> set ptm. coarse s1 p)"
    by (rule merge_queued_leaf [OF mq inv c _ l]) auto
  have c1: "coarse s1 a" if "node = Some a" for a
    using c(1) [OF that] 1 coarse_frame by blast
  have 2: "leaf_inv s2 \<and> leaf_frame s1 s2"
    using 1 by (intro recompute_leaf [OF rc _ c1]) simp_all
  have c2: "coarse s2 a" if "node = Some a" for a
    using c1 [OF that] 2 coarse_frame by blast
  have p2: "\<forall>p \<in> set ptm. coarse s2 p"
    using 1 2 coarse_frame by blast
  have 3: "leaf_inv s3 \<and> leaf_frame s2 s3 \<and> (\<forall>p \<in> set ptm1. coarse s3 p)"
    using 2 by (intro closest_step_leaf [OF fc mc _ c2 p2 l]) simp_all
  have "leaf_frame s s3"
    using 1 2 3 leaf_frame_trans by blast
  with 3 show ?thesis by simp
qed

lemma refine_leaf:
  assumes "refine n thr node ms s = Inr s'" "leaf_inv s"
    and "\<And>a. node = Some a \<Longrightarrow> coarse s a" "\<forall>m \<in> set ms. coarse s m" "n \<le> 19"
  shows "leaf_inv s' \<and> leaf_frame s s'"
  using assms
proof (induction n arbitrary: node ms s)
  case 0
  then show ?case by (simp add: leaf_frame_refl)
next
  case (Suc l)
  from Suc.prems(5) have l: "int l < 19" by simp
  from refine_Suc_D [OF Suc.prems(1)] obtain s1 ptm s2 closest s3 ptm1 nd where
    mq: "merge_queued s node ms [] (int l) = Inr (s1, ptm)" and
    rc: "recompute s1 node = Inr s2" and
    fc: "FindClosestNode s2 node (int l) thr = Inr closest" and
    mc: "(case closest of None \<Rightarrow> Inr (s2, ptm)
          | Some c \<Rightarrow> MergeNodes s2 node c ptm (int l)) = Inr (s3, ptm1)" and
    d: "deref s3 node = Inr nd" and
    r: "refine l thr (Parent nd) ptm1 s3 = Inr s'"
    by (elim exE conjE) (rule that)
  have 3: "leaf_inv s3 \<and> leaf_frame s s3 \<and> (\<forall>p \<in> set ptm1. coarse s3 p)"
    by (rule refine_step_leaf [OF mq rc fc mc Suc.prems(2,3,4) l])
  have c3: "coarse s3 a" if "Parent nd = Some a" for a
    using parent_coarse [OF _ d that] 3 by simp
  have "leaf_inv s' \<and> leaf_frame s3 s'"
    using 3 Suc.prems(5) by (intro Suc.IH [OF r _ c3]) simp_all
  with 3 show ?case
    using leaf_frame_trans by blast
qed

lemma set_insert_last: "\<forall>y \<in> set xs. y < x \<Longrightarrow> set_insert x xs = xs @ [x]"
  by (induction xs) auto

lemma leaf_inv_new_leaf:
  assumes inv: "leaf_inv s0" and st: "Store s5 = Store s0 @ [Some nd]"
    and nd: "Level nd = finest" "Parent nd = None"
    and tab: "NodeTable s5 = (NodeTable s0)[19 := set_insert (length (Store s0)) (NodeTable s0 ! 19)]"
  shows "leaf_inv s5 \<and> NodeTable s5 ! 19 = NodeTable s0 ! 19 @ [length (Store s0)]"
proof -
  have look: "\<And>b. lookup (Store s5) b = (if b = length (Store s0) then Some nd else lookup (Store s0) b)"
    by (simp add: st lookup_append)
  have len: "length (NodeTable s0) = 20"
    using inv by (simp add: leaf_inv_def)
  have old: "\<forall>p \<in> set (NodeTable s0 ! 19). p < length (Store s0)"
    using inv unfolding leaf_inv_def by (blast dest: lookup_Some_less)
  then have t19: "NodeTable s5 ! 19 = NodeTable s0 ! 19 @ [length (Store s0)]"
    by (simp add: tab len set_insert_last)
  have tl: "\<And>l. l < 19 \<Longrightarrow> NodeTable s5 ! l = NodeTable s0 ! l"
    by (simp add: tab)
  have lenS: "length (Store s5) = Suc (length (Store s0))"
    by (simp add: st)
  have co: "\<And>q. coarse s0 q \<Longrightarrow> coarse s5 q"
    by (auto simp: coarse_def look lenS)
  have "leaf_inv s5"
    unfolding leaf_inv_def
  proof (intro conjI allI impI ballI)
    show "length (NodeTable s5) = 20"
      by (simp add: tab len)
  next
    fix l p assume "l < (19::nat)" "p \<in> set (NodeTable s5 ! l)"
    with inv show "coarse s5 p"
      by (auto simp: tl leaf_inv_def intro: co)
  next
    fix p nd' q assume "lookup (Store s5) p = Some nd'" "Parent nd' = Some q"
    with inv nd show "coarse s5 q"
      by (auto simp: look leaf_inv_def intro: co split: if_splits)
  next
    fix p assume "p \<in> set (NodeTable s5 ! 19)"
    then have "p = length (Store s0) \<or> p \<in> set (NodeTable s0 ! 19)"
      by (auto simp: t19)
    then show "\<exists>nd. lookup (Store s5) p = Some nd \<and> Level nd = finest"
    proof
      assume "p = length (Store s0)"
      with nd show ?thesis by (simp add: look)
    next
      assume p: "p \<in> set (NodeTable s0 ! 19)"
      with inv obtain nd0 where "lookup (Store s0) p = Some nd0" "Level nd0 = finest"
        unfolding leaf_inv_def by blast
      moreover from p old have "p \<noteq> length (Store s0)" by auto
      ultimately show ?thesis by (simp add: look)
    qed
  qed
  with t19 show ?thesis by simp
qed

lemma leaf_frame_view:
  assumes "leaf_frame s s'" "lookup (Store s) p = Some nd" "Level nd = finest"
  shows "leaf_view s' p = leaf_view s p"
proof -
  from assms obtain nd' where "lookup (Store s') p = Some nd'" "nd' = nd\<lparr>Parent := Parent nd'\<rparr>"
    unfolding leaf_frame_def by blast
  then have "lookup (Store s') p = Some nd'" "NumberOfMarkers nd' = NumberOfMarkers nd"
    "MarkerId nd' = MarkerId nd" "gcsCoords nd' = gcsCoords nd"
    by (simp, (metis ClusteringNode.select_convs ClusteringNode.surjective ClusteringNode.update_convs(4))+)
  with assms(2) show ?thesis
    by (simp add: leaf_view_def)
qed


lemma cluster_insert_D:
  "cluster_insert s node = Inr s' \<Longrightarrow>
     \<exists>s1 nodeSet s3 node1 level1 nd1.
       modify s (Some node) (\<lambda>nd. nd\<lparr>Level := int (length (NodeTable s)) - 1\<rparr>) = Inr s1 \<and>
       table_at s1 (int (length (NodeTable s)) - 1) = Inr nodeSet \<and>
       climb (nat (int (length (NodeTable s)) - 1))
          (ClusterDistance (table_put s1 (int (length (NodeTable s)) - 1) (set_insert node nodeSet)))
          node (table_put s1 (int (length (NodeTable s)) - 1) (set_insert node nodeSet))
         = Inr (s3, node1, level1) \<and>
       deref s3 (Some node1) = Inr nd1 \<and>
       refine (nat level1)
          (ClusterDistance (table_put s1 (int (length (NodeTable s)) - 1) (set_insert node nodeSet)))
          (Parent nd1) [] s3 = Inr s'"
  by (simp add: cluster_insert_def andThen_Inr_iff Let_def)

lemma cluster_insert_leaf:
  assumes ci: "cluster_insert s3 node = Inr s4" and inv: "leaf_inv s0"
    and st: "Store s3 = Store s0 @ [Some nd0]" and node: "node = length (Store s0)"
    and tab: "NodeTable s3 = NodeTable s0" and nd0: "Parent nd0 = None"
  shows "leaf_inv s4 \<and> NodeTable s4 ! 19 = NodeTable s0 ! 19 @ [node] \<and>
         (\<forall>p \<in> set (NodeTable s0 ! 19). leaf_view s4 p = leaf_view s0 p) \<and>
         leaf_view s4 node = Some (NumberOfMarkers nd0, MarkerId nd0, gcsCoords nd0) \<and>
         Clustering s4 = Clustering s3 \<and>
         InternalsNumberOfMarkers s4 = InternalsNumberOfMarkers s3"
proof -
  have len: "length (NodeTable s3) = 20"
    using inv by (simp add: tab leaf_inv_def)
  from cluster_insert_D [OF ci] obtain s1 nodeSet s6 node1 level1 nd1 where
    m: "modify s3 (Some node) (\<lambda>nd. nd\<lparr>Level := 19\<rparr>) = Inr s1" and
    t: "table_at s1 19 = Inr nodeSet" and
    cl: "climb 19 (ClusterDistance (table_put s1 19 (set_insert node nodeSet))) node
           (table_put s1 19 (set_insert node nodeSet)) = Inr (s6, node1, level1)" and
    d: "deref s6 (Some node1) = Inr nd1" and
    r: "refine (nat level1) (ClusterDistance (table_put s1 19 (set_insert node nodeSet)))
          (Parent nd1) [] s6 = Inr s4"
    unfolding len by (elim exE conjE) (rule that, simp_all)
  define s5 where "s5 = table_put s1 19 (set_insert node nodeSet)"
  have l0: "lookup (Store s3) node = Some nd0"
    by (simp add: st node lookup_append)
  with m have s1: "s1 = assign s3 node (nd0\<lparr>Level := 19\<rparr>)"
    by (simp add: modify_Inr_iff)
  have st1: "Store s1 = Store s0 @ [Some (nd0\<lparr>Level := 19\<rparr>)]"
    and tab1: "NodeTable s1 = NodeTable s0"
    and f1: "Clustering s1 = Clustering s3" "InternalsNumberOfMarkers s1 = InternalsNumberOfMarkers s3"
    by (simp_all add: s1 assign_def st node tab)
  from t have ns: "nodeSet = NodeTable s0 ! 19"
    by (simp add: table_at_Inr_iff tab1)
  have st5: "Store s5 = Store s0 @ [Some (nd0\<lparr>Level := 19\<rparr>)]"
    and tab5: "NodeTable s5 = (NodeTable s0)[19 := set_insert (length (Store s0)) (NodeTable s0 ! 19)]"
    and f5: "Clustering s5 = Clustering s3" "InternalsNumberOfMarkers s5 = InternalsNumberOfMarkers s3"
    by (simp_all add: s5_def table_put_def st1 tab1 ns node f1)
  have 5: "leaf_inv s5 \<and> NodeTable s5 ! 19 = NodeTable s0 ! 19 @ [length (Store s0)]"
    by (rule leaf_inv_new_leaf [OF inv st5 _ _ tab5]) (simp_all add: finest_eq nd0)
  have 6: "leaf_inv s6 \<and> leaf_frame s5 s6 \<and> level1 < 19"
    using 5 by (intro climb_leaf [OF cl [folded s5_def]]) simp_all
  have c6: "coarse s6 a" if "Parent nd1 = Some a" for a
    using parent_coarse [OF _ d that] 6 by simp
  have 7: "leaf_inv s4 \<and> leaf_frame s6 s4"
    using 6 by (intro refine_leaf [OF r _ c6]) auto
  have fr: "leaf_frame s5 s4"
    using 6 7 leaf_frame_trans by blast
  have look5: "\<And>b. lookup (Store s5) b = (if b = length (Store s0) then Some (nd0\<lparr>Level := 19\<rparr>)
                                             else lookup (Store s0) b)"
    by (simp add: st5 lookup_append)
  have v_new: "leaf_view s4 node = Some (NumberOfMarkers nd0, MarkerId nd0, gcsCoords nd0)"
    using leaf_frame_view [OF fr, of node "nd0\<lparr>Level := 19\<rparr>"]
    by (simp add: look5 node finest_eq leaf_view_def)
  have v_old: "leaf_view s4 p = leaf_view s0 p" if p: "p \<in> set (NodeTable s0 ! 19)" for p
  proof -
    from inv p obtain nd where nd: "lookup (Store s0) p = Some nd" "Level nd = finest"
      unfolding leaf_inv_def by blast
    then have "p \<noteq> length (Store s0)"
      by (auto dest: lookup_Some_less)
    with nd have "lookup (Store s5) p = Some nd"
      by (simp add: look5)
    from leaf_frame_view [OF fr this nd(2)] \<open>p \<noteq> length (Store s0)\<close> show ?thesis
      by (simp add: leaf_view_def look5)
  qed
  have "NodeTable s4 ! 19 = NodeTable s0 ! 19 @ [node]"
    using fr 5 by (simp add: leaf_frame_def node)
  moreover have "Clustering s4 = Clustering s3" "InternalsNumberOfMarkers s4 = InternalsNumberOfMarkers s3"
    using fr f5 by (simp_all add: leaf_frame_def)
  ultimately show ?thesis
    using 7 v_new v_old by simp
qed


lemma AddMarker_clustering_D:
  assumes "AddMarker lat2y latitude longitude s = Inr (markerId, s')" "Clustering s"
  shows "\<exists>s4.
      markerId = InternalsNumberOfMarkers s \<and>
      cluster_insert
         (s\<lparr>InternalsNumberOfMarkers := InternalsNumberOfMarkers s + 1,
            Store := Store s @
              [Some \<lparr>NodeId = NumberOfNodes s, Level = 0,
                     gcsCoords = (longitude, lat2y latitude),
                     Parent = None, Children = [], NumberOfMarkers = 1,
                     MarkerId = InternalsNumberOfMarkers s\<rparr>],
            AllNodes := AllNodes s @ [Some (length (Store s))],
            NumberOfNodes := NumberOfNodes s + 1\<rparr>)
         (length (Store s)) = Inr s4 \<and>
      s' = s4\<lparr>MarkersChanged := True\<rparr>"
  using assms
  by (simp add: AddMarker_def new_node_def Let_def andThen_Inr_iff) metis

lemma leaf_view_MarkersChanged [simp]:
  "leaf_view (s\<lparr>MarkersChanged := x\<rparr>) p = leaf_view s p"
  by (simp add: leaf_view_def)

lemma AddMarker_leaf:
  assumes am: "AddMarker lat2y latitude longitude s = Inr (markerId, s')"
    and inv: "leaf_inv s" and cl: "Clustering s"
  shows "leaf_inv s' \<and> Clustering s' \<and>
         markerId = InternalsNumberOfMarkers s \<and>
         InternalsNumberOfMarkers s' = InternalsNumberOfMarkers s + 1 \<and>
         map (leaf_view s') (NodeTable s' ! 19)
           = map (leaf_view s) (NodeTable s ! 19) @ [Some (1, markerId, longitude, lat2y latitude)]"
proof -
  define nd0 where "nd0 = \<lparr>NodeId = NumberOfNodes s, Level = 0,
              gcsCoords = (longitude, lat2y latitude),
              Parent = None, Children = [], NumberOfMarkers = 1,
              MarkerId = InternalsNumberOfMarkers s\<rparr>"
  define s3 where "s3 = s\<lparr>InternalsNumberOfMarkers := InternalsNumberOfMarkers s + 1,
            Store := Store s @ [Some nd0],
            AllNodes := AllNodes s @ [Some (length (Store s))],
            NumberOfNodes := NumberOfNodes s + 1\<rparr>"
  from AddMarker_clustering_D [OF am cl] obtain s4 where
    i: "markerId = InternalsNumberOfMarkers s" and
    ci_raw: "cluster_insert
         (s\<lparr>InternalsNumberOfMarkers := InternalsNumberOfMarkers s + 1,
            Store := Store s @
              [Some \<lparr>NodeId = NumberOfNodes s, Level = 0,
                     gcsCoords = (longitude, lat2y latitude),
                     Parent = None, Children = [], NumberOfMarkers = 1,
                     MarkerId = InternalsNumberOfMarkers s\<rparr>],
            AllNodes := AllNodes s @ [Some (length (Store s))],
            NumberOfNodes := NumberOfNodes s + 1\<rparr>)
         (length (Store s)) = Inr s4" and
    s': "s' = s4\<lparr>MarkersChanged := True\<rparr>"
    by (elim exE conjE) (rule that)
  have ci: "cluster_insert s3 (length (Store s)) = Inr s4"
    using ci_raw by (simp add: s3_def nd0_def)
  have st: "Store s3 = Store s @ [Some nd0]" and tab: "NodeTable s3 = NodeTable s" and
    c3: "Clustering s3" and n3: "InternalsNumberOfMarkers s3 = InternalsNumberOfMarkers s + 1"
    using cl by (simp_all add: s3_def)
  have p0: "Parent nd0 = None"
    by (simp add: nd0_def)
  from cluster_insert_leaf [OF ci inv st refl tab p0]
  have 4: "leaf_inv s4" "NodeTable s4 ! 19 = NodeTable s ! 19 @ [length (Store s)]"
    "\<forall>p \<in> set (NodeTable s ! 19). leaf_view s4 p = leaf_view s p"
    "leaf_view s4 (length (Store s)) = Some (NumberOfMarkers nd0, MarkerId nd0, gcsCoords nd0)"
    "Clustering s4 = Clustering s3" "InternalsNumberOfMarkers s4 = InternalsNumberOfMarkers s3"
    by simp_all
  have "map (leaf_view s') (NodeTable s' ! 19)
           = map (leaf_view s) (NodeTable s ! 19) @ [Some (1, markerId, longitude, lat2y latitude)]"
    using 4(2,3,4) by (simp add: s' nd0_def i)
  with 4(1,5,6) c3 n3 i show ?thesis
    by (simp add: s')
qed

lemma AddMarkers_leaf:
  assumes "AddMarkers lat2y markers s = Inr (markerIds, s')" "leaf_inv s" "Clustering s"
  shows "leaf_inv s' \<and> Clustering s' \<and>
         map (leaf_view s') (NodeTable s' ! 19)
           = map (leaf_view s) (NodeTable s ! 19) @
             map (\<lambda>k. Some (1, InternalsNumberOfMarkers s + int k,
                             snd (markers ! k), lat2y (fst (markers ! k))))
                 [0 ..< length markers]"
  using assms
proof (induction markers arbitrary: s markerIds)
  case Nil
  then show ?case by simp
next
  case (Cons m ms)
  obtain latitude longitude where m: "m = (latitude, longitude)"
    by (cases m)
  from Cons.prems(1) obtain markerId s1 ids where
    am: "AddMarker lat2y latitude longitude s = Inr (markerId, s1)" and
    r: "AddMarkers lat2y ms s1 = Inr (ids, s')"
    unfolding m by (simp add: andThen_Inr_iff) blast
  from AddMarker_leaf [OF am Cons.prems(2,3)]
  have 1: "leaf_inv s1" "Clustering s1" "markerId = InternalsNumberOfMarkers s"
    "InternalsNumberOfMarkers s1 = InternalsNumberOfMarkers s + 1"
    "map (leaf_view s1) (NodeTable s1 ! 19)
       = map (leaf_view s) (NodeTable s ! 19) @ [Some (1, markerId, longitude, lat2y latitude)]"
    by simp_all
  from Cons.IH [OF r 1(1,2)]
  have 2: "leaf_inv s'" "Clustering s'"
    "map (leaf_view s') (NodeTable s' ! 19)
       = map (leaf_view s1) (NodeTable s1 ! 19) @
         map (\<lambda>k. Some (1, InternalsNumberOfMarkers s1 + int k,
                         snd (ms ! k), lat2y (fst (ms ! k)))) [0 ..< length ms]"
    by simp_all
  have e: "map (\<lambda>k. Some (1, InternalsNumberOfMarkers s + int k,
                         snd ((m # ms) ! k), lat2y (fst ((m # ms) ! k)))) [0 ..< length (m # ms)]
        = Some (1, markerId, longitude, lat2y latitude) #
          map (\<lambda>k. Some (1, InternalsNumberOfMarkers s1 + int k,
                         snd (ms ! k), lat2y (fst (ms ! k)))) [0 ..< length ms]"
    by (simp only: length_Cons map_upt_Suc) (simp add: 1(3,4) m algebra_simps)
  show ?case
    unfolding e using 1(5) 2 by simp
qed


lemma leaf_inv_fresh:
  assumes "NodeTable s0 = replicate 20 []" "Store s0 = []"
  shows "leaf_inv s0"
  using assms by (simp add: leaf_inv_def lookup_def)

text \<open>
  Claim C10. Start from a freshly constructed object with clustering enabled (twenty empty
  levels, an empty store, no marker yet) and add markers; if every \<^verbatim>\<open>AddMarker\<close> call
  returns, the set of level 19 holds exactly one node per marker: it has as many
  addresses as markers were added, all different, and the \<open>k\<close>-th of them (in address
  order, which is insertion order) is a live node with marker count 1, marker id \<open>k\<close> and
  the projected position of the \<open>k\<close>-th marker. Merging and proximity search touch levels
  18 to 0 only.
\<close>

theorem finest_level_keeps_every_marker:
  assumes "AddMarkers lat2y markers s0 = Inr (markerIds, s)"
    and "Clustering s0" and "NodeTable s0 = replicate 20 []" and "Store s0 = []"
    and "InternalsNumberOfMarkers s0 = 0"
  shows "length (NodeTable s ! 19) = length markers \<and>
         distinct (NodeTable s ! 19) \<and>
         (\<forall>k < length markers.
            \<exists>nd. lookup (Store s) (NodeTable s ! 19 ! k) = Some nd \<and>
                 NumberOfMarkers nd = 1 \<and> MarkerId nd = int k \<and>
                 gcsCoords nd = (snd (markers ! k), lat2y (fst (markers ! k))))"
proof -
  have inv: "leaf_inv s0"
    using assms(3,4) by (rule leaf_inv_fresh)
  from AddMarkers_leaf [OF assms(1) inv assms(2)]
  have v: "map (leaf_view s) (NodeTable s ! 19)
             = map (\<lambda>k. Some (1, int k, snd (markers ! k), lat2y (fst (markers ! k))))
                 [0 ..< length markers]"
    by (simp add: assms(3,5))
  from arg_cong [OF v, of length] have len: "length (NodeTable s ! 19) = length markers"
    by simp
  have nth: "leaf_view s (NodeTable s ! 19 ! k)
               = Some (1, int k, snd (markers ! k), lat2y (fst (markers ! k)))"
    if "k < length markers" for k
    using arg_cong [OF v, of "\<lambda>xs. xs ! k"] that len by simp
  have "distinct (NodeTable s ! 19)"
    unfolding distinct_conv_nth
  proof (intro allI impI)
    fix i j assume "i < length (NodeTable s ! 19)" "j < length (NodeTable s ! 19)" "i \<noteq> j"
    with nth [of i] nth [of j] len show "NodeTable s ! 19 ! i \<noteq> NodeTable s ! 19 ! j"
      by auto
  qed
  moreover have "\<exists>nd. lookup (Store s) (NodeTable s ! 19 ! k) = Some nd \<and>
                 NumberOfMarkers nd = 1 \<and> MarkerId nd = int k \<and>
                 gcsCoords nd = (snd (markers ! k), lat2y (fst (markers ! k)))"
    if "k < length markers" for k
    using nth [OF that] by (auto simp: leaf_view_def)
  ultimately show ?thesis
    using len by simp
qed

theorem finest_level_keeps_every_marker_witness:
  "AddMarkers (\<lambda>lat. lat) [(0, 0), (0, 1 / 16384), (0, 120)] (Init (constructor\<lparr>Clustering := True\<rparr>))
     = Inr (projr (AddMarkers (\<lambda>lat. lat) [(0, 0), (0, 1 / 16384), (0, 120)]
                     (Init (constructor\<lparr>Clustering := True\<rparr>)))) \<and>
   Clustering (Init (constructor\<lparr>Clustering := True\<rparr>)) \<and>
   NodeTable (Init (constructor\<lparr>Clustering := True\<rparr>)) = replicate 20 [] \<and>
   Store (Init (constructor\<lparr>Clustering := True\<rparr>)) = [] \<and>
   InternalsNumberOfMarkers (Init (constructor\<lparr>Clustering := True\<rparr>)) = 0 \<and>
   NodeTable (snd (projr (AddMarkers (\<lambda>lat. lat) [(0, 0), (0, 1 / 16384), (0, 120)]
                     (Init (constructor\<lparr>Clustering := True\<rparr>))))) ! 19 = [0, 20, 21] \<and>
   length (NodeTable (snd (projr (AddMarkers (\<lambda>lat. lat) [(0, 0), (0, 1 / 16384), (0, 120)]
                     (Init (constructor\<lparr>Clustering := True\<rparr>))))) ! 19) = 3"
proof -
  define r where "r = projr (AddMarkers (\<lambda>lat. lat) [(0, 0), (0, 1 / 16384), (0, 120)]
                     (Init (constructor\<lparr>Clustering := True\<rparr>)))"
  have a: "AddMarkers (\<lambda>lat. lat) [(0, 0), (0, 1 / 16384), (0, 120)]
             (Init (constructor\<lparr>Clustering := True\<rparr>))
           = Inr (projr (AddMarkers (\<lambda>lat. lat) [(0, 0), (0, 1 / 16384), (0, 120)]
                     (Init (constructor\<lparr>Clustering := True\<rparr>))))"
    by code_simp
  then have a': "AddMarkers (\<lambda>lat. lat) [(0, 0), (0, 1 / 16384), (0, 120)]
             (Init (constructor\<lparr>Clustering := True\<rparr>)) = Inr (fst r, snd r)"
    by (simp add: r_def)
  have b: "Clustering (Init (constructor\<lparr>Clustering := True\<rparr>))"
    "NodeTable (Init (constructor\<lparr>Clustering := True\<rparr>)) = replicate 20 []"
    "Store (Init (constructor\<lparr>Clustering := True\<rparr>)) = []"
    "InternalsNumberOfMarkers (Init (constructor\<lparr>Clustering := True\<rparr>)) = 0"
    by (simp_all add: Init_def constructor_def NumberOfClusterLevels_def)
  have c: "NodeTable (snd (projr (AddMarkers (\<lambda>lat. lat) [(0, 0), (0, 1 / 16384), (0, 120)]
                     (Init (constructor\<lparr>Clustering := True\<rparr>))))) ! 19 = [0, 20, 21]"
    by code_simp
  from finest_level_keeps_every_marker [OF a' b] have "length (NodeTable (snd r) ! 19) = 3"
    by simp
  with a b c show ?thesis
    unfolding r_def by simp
qed

section \<open>Counts and centroids in the cluster tree\<close>

lemma tree_inv_mono: "tree_inv s X Y \<Longrightarrow> X \<subseteq> X' \<Longrightarrow> tree_inv s X' Y"
  unfolding tree_inv_def by blast

lemma tree_inv_node:
  assumes "tree_inv s X Y" "p \<in> level_set s l"
  shows "l < 20 \<and> (\<exists>nd. lookup (Store s) p = Some nd \<and> linked s Y l p nd \<and> (p \<notin> X \<longrightarrow> good s l nd))"
proof -
  from assms have "l < 20"
    by (auto simp: level_set_def tree_inv_def split: if_splits)
  with assms show ?thesis
    unfolding tree_inv_def by blast
qed

lemma level_unique:
  assumes "tree_inv s X Y" "p \<in> level_set s l" "p \<in> level_set s l'"
  shows "l = l'"
  using tree_inv_node [OF assms(1,2)] tree_inv_node [OF assms(1,3)]
  by (auto simp: linked_def)

lemma level_ne:
  assumes "tree_inv s X Y" "p \<in> level_set s i" "p' \<in> level_set s j" "i \<noteq> j"
  shows "p \<noteq> p'"
  using level_unique [OF assms(1,2), of j] assms(3,4) by auto

lemma lookup_assign:
  "a < length (Store s) \<Longrightarrow> lookup (Store (assign s a x)) = (lookup (Store s))(a \<mapsto> x)"
  by (auto simp: assign_def lookup_update fun_eq_iff)

lemma assign_fields [simp]:
  "NodeTable (assign s a x) = NodeTable s"
  "AllNodes (assign s a x) = AllNodes s"
  "length (Store (assign s a x)) = length (Store s)"
  "Clustering (assign s a x) = Clustering s"
  "ClusterDistance (assign s a x) = ClusterDistance s"
  "InternalsNumberOfMarkers (assign s a x) = InternalsNumberOfMarkers s"
  "NumberOfNodes (assign s a x) = NumberOfNodes s"
  by (simp_all add: assign_def)

lemma modify_heap:
  assumes "modify s p f = Inr s'"
  shows "\<exists>a nd. p = Some a \<and> lookup (Store s) a = Some nd \<and>
           lookup (Store s') = (lookup (Store s))(a \<mapsto> f nd) \<and>
           NodeTable s' = NodeTable s \<and> AllNodes s' = AllNodes s \<and>
           length (Store s') = length (Store s)"
proof -
  from assms obtain a nd where a: "p = Some a" "lookup (Store s) a = Some nd"
    "s' = assign s a (f nd)"
    by (auto simp: modify_Inr_iff)
  from a(2) have "a < length (Store s)" by (rule lookup_Some_less)
  with a show ?thesis
    by (simp add: lookup_assign)
qed

lemma sum_set_insert:
  "x \<notin> set xs \<Longrightarrow> (\<Sum>c\<leftarrow>set_insert x xs. f c) = f x + (\<Sum>c\<leftarrow>xs. (f c :: 'a :: comm_monoid_add))"
  by (induction xs) (auto simp: algebra_simps)

lemma distinct_set_insert: "distinct xs \<Longrightarrow> x \<notin> set xs \<Longrightarrow> distinct (set_insert x xs)"
  by (induction xs) auto

lemma sorted_set_insert: "sorted_wrt (<) xs \<Longrightarrow> sorted_wrt (<) (set_insert x xs)"
  by (induction xs) auto

lemma reparent_heap:
  assumes "reparent s (Some a) cs = Inr s'" "a \<notin> set cs" "lookup (Store s) a = Some nd"
  shows "(\<forall>c \<in> set cs. \<exists>cd. lookup (Store s) c = Some cd) \<and>
         lookup (Store s') =
           (\<lambda>b. if b \<in> set cs then map_option (\<lambda>cd. cd\<lparr>Parent := Some a\<rparr>) (lookup (Store s) b)
                else if b = a
                then Some (nd\<lparr>Children := foldl (\<lambda>xs c. set_insert c xs) (Children nd) cs\<rparr>)
                else lookup (Store s) b) \<and>
         NodeTable s' = NodeTable s \<and> AllNodes s' = AllNodes s \<and>
         length (Store s') = length (Store s)"
  using assms
proof (induction cs arbitrary: s nd)
  case Nil
  then show ?case by (auto simp: fun_eq_iff)
next
  case (Cons c cs)
  from Cons.prems(1) obtain s1 s2 where
    m1: "modify s (Some a) (\<lambda>nd. nd\<lparr>Children := set_insert c (Children nd)\<rparr>) = Inr s1" and
    m2: "modify s1 (Some c) (\<lambda>cd. cd\<lparr>Parent := Some a\<rparr>) = Inr s2" and
    r: "reparent s2 (Some a) cs = Inr s'"
    by (auto simp: andThen_Inr_iff)
  from Cons.prems(2) have ac: "a \<noteq> c" and acs: "a \<notin> set cs"
    by auto
  from modify_heap [OF m1] Cons.prems(3) have
    h1: "lookup (Store s1) = (lookup (Store s))(a \<mapsto> nd\<lparr>Children := set_insert c (Children nd)\<rparr>)"
    and f1: "NodeTable s1 = NodeTable s" "AllNodes s1 = AllNodes s"
      "length (Store s1) = length (Store s)"
    by auto
  from modify_heap [OF m2] obtain cd where
    c1: "lookup (Store s1) c = Some cd" and
    h2: "lookup (Store s2) = (lookup (Store s1))(c \<mapsto> cd\<lparr>Parent := Some a\<rparr>)"
    and f2: "NodeTable s2 = NodeTable s1" "AllNodes s2 = AllNodes s1"
      "length (Store s2) = length (Store s1)"
    by auto
  from c1 ac have c0: "lookup (Store s) c = Some cd"
    by (simp add: h1)
  have a2: "lookup (Store s2) a = Some (nd\<lparr>Children := set_insert c (Children nd)\<rparr>)"
    using ac by (simp add: h2 h1)
  from Cons.IH [OF r acs a2] have
    live: "\<forall>c \<in> set cs. \<exists>cd. lookup (Store s2) c = Some cd" and
    h': "lookup (Store s') =
           (\<lambda>b. if b \<in> set cs then map_option (\<lambda>cd. cd\<lparr>Parent := Some a\<rparr>) (lookup (Store s2) b)
                else if b = a
                then Some (nd\<lparr>Children := foldl (\<lambda>xs c. set_insert c xs)
                                            (set_insert c (Children nd)) cs\<rparr>)
                else lookup (Store s2) b)" and
    f': "NodeTable s' = NodeTable s2" "AllNodes s' = AllNodes s2"
      "length (Store s') = length (Store s2)"
    by (simp_all add: fun_eq_iff)
  have "\<forall>x \<in> set (c # cs). \<exists>cd. lookup (Store s) x = Some cd"
    using live c0 acs by (auto simp: h2 h1 split: if_splits)
  moreover have "lookup (Store s') =
           (\<lambda>b. if b \<in> set (c # cs)
                then map_option (\<lambda>cd. cd\<lparr>Parent := Some a\<rparr>) (lookup (Store s) b)
                else if b = a
                then Some (nd\<lparr>Children := foldl (\<lambda>xs c. set_insert c xs) (Children nd) (c # cs)\<rparr>)
                else lookup (Store s) b)"
    unfolding h' using ac acs c0 by (auto simp: fun_eq_iff h2 h1)
  ultimately show ?case
    using f1 f2 f' by simp
qed

lemma set_foldl_insert [simp]:
  "set (foldl (\<lambda>xs c. set_insert c xs) xs cs) = set xs \<union> set cs"
  by (induction cs arbitrary: xs) auto

lemma distinct_foldl_insert:
  "distinct xs \<Longrightarrow> distinct cs \<Longrightarrow> set xs \<inter> set cs = {} \<Longrightarrow>
   distinct (foldl (\<lambda>xs c. set_insert c xs) xs cs)"
proof (induction cs arbitrary: xs)
  case Nil
  then show ?case by simp
next
  case (Cons c cs)
  from Cons.prems have "distinct (set_insert c xs)" "distinct cs" "set (set_insert c xs) \<inter> set cs = {}"
    by (auto intro: distinct_set_insert)
  from Cons.IH [OF this] show ?case by simp
qed

lemma sum_foldl_insert:
  "distinct cs \<Longrightarrow> set xs \<inter> set cs = {} \<Longrightarrow>
   (\<Sum>c\<leftarrow>foldl (\<lambda>xs c. set_insert c xs) xs cs. f c)
     = (\<Sum>c\<leftarrow>xs. f c) + (\<Sum>c\<leftarrow>cs. (f c :: 'a :: comm_monoid_add))"
proof (induction cs arbitrary: xs)
  case Nil
  then show ?case by simp
next
  case (Cons c cs)
  from Cons.prems have "distinct cs" "set (set_insert c xs) \<inter> set cs = {}" "c \<notin> set xs"
    by auto
  with Cons.IH [of "set_insert c xs"] show ?case
    by (simp add: sum_set_insert algebra_simps)
qed

lemma merge_coords_D:
  "merge_coords s node m = Inr s' \<Longrightarrow>
     \<exists>nd md. deref s node = Inr nd \<and> deref s (Some m) = Inr md \<and>
       modify s node (\<lambda>x. x\<lparr>gcsCoords := merged_coords nd md,
                              NumberOfMarkers := NumberOfMarkers nd + NumberOfMarkers md,
                              MarkerId := - 1\<rparr>) = Inr s'"
  by (simp add: merge_coords_def andThen_Inr_iff Let_def merged_coords_def)

lemma adjust_parent_counts_D:
  "adjust_parent_counts s node m = Inr s' \<Longrightarrow>
     \<exists>md nd s1 md1.
       deref s (Some m) = Inr md \<and> deref s node = Inr nd \<and>
       modify s (Parent nd)
         (\<lambda>pd. pd\<lparr>NumberOfMarkers := NumberOfMarkers pd + NumberOfMarkers md\<rparr>) = Inr s1 \<and>
       deref s1 (Some m) = Inr md1 \<and>
       modify s1 (Parent md1)
         (\<lambda>pd. pd\<lparr>NumberOfMarkers := NumberOfMarkers pd - NumberOfMarkers md\<rparr>) = Inr s'"
  by (simp add: adjust_parent_counts_def andThen_Inr_iff Let_def)

lemma detach_from_parent_D:
  "detach_from_parent s m = Inr s' \<Longrightarrow>
     \<exists>md. deref s (Some m) = Inr md \<and>
       modify s (Parent md) (\<lambda>pd. pd\<lparr>Children := set_erase m (Children pd)\<rparr>) = Inr s'"
  by (simp add: detach_from_parent_def andThen_Inr_iff)

lemma remember_parent_eq:
  "deref s (Some m) = Inr md \<Longrightarrow> Parent md = Some qm \<Longrightarrow> deref s node = Inr nd \<Longrightarrow>
   remember_parent s node m ptm
     = Inr (if Some qm \<noteq> Parent nd then set_insert qm ptm else ptm)"
  by (simp add: remember_parent_def)

lemma delete_merging_D:
  assumes "delete_merging s m l = Inr s'"
  shows "0 \<le> l \<and> l < int (length (NodeTable s)) \<and>
         (\<exists>md. lookup (Store s) m = Some md) \<and>
         lookup (Store s') = (lookup (Store s))(m := None) \<and>
         NodeTable s' = (NodeTable s)[nat l := removeAll m (NodeTable s ! nat l)] \<and>
         length (Store s') = length (Store s)"
proof -
  from assms obtain nodeSet where
    t: "table_at s l = Inr nodeSet"
    by (auto simp: delete_merging_def andThen_Inr_iff)
  define s1 where "s1 = (if m \<in> set nodeSet then table_put s l (set_erase m nodeSet) else s)"
  from assms t have "\<exists>md. deref s1 (Some m) = Inr md \<and>
      s' = (delete_node s1 m)\<lparr>AllNodes := (AllNodes s1)[nat (NodeId md) := None]\<rparr>"
    by (simp add: delete_merging_def Let_def s1_def andThen_Inr_iff delete_node_AllNodes
             split: if_splits)
  then obtain md where md: "deref s1 (Some m) = Inr md" and
    s': "s' = (delete_node s1 m)\<lparr>AllNodes := (AllNodes s1)[nat (NodeId md) := None]\<rparr>"
    by blast
  from t have l: "0 \<le> l" "l < int (length (NodeTable s))" "nodeSet = NodeTable s ! nat l"
    by (simp_all add: table_at_Inr_iff)
  have st1: "Store s1 = Store s"
    by (simp add: s1_def table_put_def)
  have tab1: "NodeTable s1 = (NodeTable s)[nat l := removeAll m (NodeTable s ! nat l)]"
    by (simp add: s1_def table_put_def l(3) set_erase_def)
  from md have live: "lookup (Store s) m = Some md"
    by (simp add: deref_Some_iff st1)
  then have "m < length (Store s)"
    by (rule lookup_Some_less)
  then have "lookup (Store s') = (lookup (Store s))(m := None)"
    by (auto simp: s' delete_node_def st1 lookup_update fun_eq_iff)
  with l live tab1 show ?thesis
    by (simp add: s' delete_node_def st1)
qed

lemma MergeNodes_D:
  "MergeNodes s node m ptm l = Inr (s', ptm') \<Longrightarrow>
     \<exists>s1 s2 s3 s4.
       merge_coords s node m = Inr s1 \<and>
       reparent_children s1 node m = Inr s2 \<and>
       adjust_parent_counts s2 node m = Inr s3 \<and>
       detach_from_parent s3 m = Inr s4 \<and>
       remember_parent s4 node m ptm = Inr ptm' \<and>
       delete_merging s4 m l = Inr s'"
  by (simp add: MergeNodes_def andThen_Inr_iff)

lemma MergeNodes_effect:
  assumes mn: "MergeNodes s (Some a) m ptm l = Inr (s', ptm')"
    and a: "lookup (Store s) a = Some nd" and m: "lookup (Store s) m = Some md"
    and am: "a \<noteq> m" and ak: "a \<notin> set (Children md)" and mk: "m \<notin> set (Children md)"
    and pa: "\<forall>q. Parent nd = Some q \<longrightarrow> q \<noteq> a \<and> q \<noteq> m \<and> q \<notin> set (Children md)"
    and pm: "\<forall>q. Parent md = Some q \<longrightarrow> q \<noteq> a \<and> q \<noteq> m \<and> q \<notin> set (Children md)"
  shows "\<exists>q qm qd qmd.
      Parent nd = Some q \<and> Parent md = Some qm \<and>
      lookup (Store s) q = Some qd \<and> lookup (Store s) qm = Some qmd \<and>
      0 \<le> l \<and> l < int (length (NodeTable s)) \<and>
      NodeTable s' = (NodeTable s)[nat l := removeAll m (NodeTable s ! nat l)] \<and>
      ptm' = (if qm \<noteq> q then set_insert qm ptm else ptm) \<and>
      (\<forall>c \<in> set (Children md). \<exists>cd. lookup (Store s) c = Some cd) \<and>
      lookup (Store s') =
        (\<lambda>b. if b = m then None
             else if b = a
             then Some (nd\<lparr>gcsCoords := merged_coords nd md,
                           NumberOfMarkers := NumberOfMarkers nd + NumberOfMarkers md,
                           MarkerId := - 1,
                           Children := foldl (\<lambda>xs c. set_insert c xs) (Children nd) (Children md)\<rparr>)
             else if b \<in> set (Children md)
             then map_option (\<lambda>cd. cd\<lparr>Parent := Some a\<rparr>) (lookup (Store s) b)
             else if b = qm
             then Some ((if qm = q
                         then qd\<lparr>NumberOfMarkers := NumberOfMarkers qd + NumberOfMarkers md\<rparr>
                         else qmd)
                        \<lparr>NumberOfMarkers :=
                           NumberOfMarkers (if qm = q
                              then qd\<lparr>NumberOfMarkers := NumberOfMarkers qd + NumberOfMarkers md\<rparr>
                              else qmd) - NumberOfMarkers md,
                         Children := removeAll m (Children qmd)\<rparr>)
             else if b = q
             then Some (qd\<lparr>NumberOfMarkers := NumberOfMarkers qd + NumberOfMarkers md\<rparr>)
             else lookup (Store s) b)"
proof -
  from MergeNodes_D [OF mn] obtain s1 s2 s3 s4 where
    1: "merge_coords s (Some a) m = Inr s1" and
    2: "reparent_children s1 (Some a) m = Inr s2" and
    3: "adjust_parent_counts s2 (Some a) m = Inr s3" and
    4: "detach_from_parent s3 m = Inr s4" and
    5: "remember_parent s4 (Some a) m ptm = Inr ptm'" and
    6: "delete_merging s4 m l = Inr s'"
    by (elim exE conjE) (rule that)
  define ndA where "ndA = nd\<lparr>gcsCoords := merged_coords nd md,
                           NumberOfMarkers := NumberOfMarkers nd + NumberOfMarkers md,
                           MarkerId := - 1\<rparr>"
  define ndB where "ndB = ndA\<lparr>Children := foldl (\<lambda>xs c. set_insert c xs) (Children nd) (Children md)\<rparr>"
  from merge_coords_D [OF 1] a m have
    m1: "modify s (Some a) (\<lambda>x. x\<lparr>gcsCoords := merged_coords nd md,
                              NumberOfMarkers := NumberOfMarkers nd + NumberOfMarkers md,
                              MarkerId := - 1\<rparr>) = Inr s1"
    by (auto simp: deref_Some_iff)
  from modify_heap [OF m1] a have
    h1: "lookup (Store s1) = (lookup (Store s))(a \<mapsto> ndA)" and
    t1: "NodeTable s1 = NodeTable s"
    by (auto simp: ndA_def)
  have m_1: "lookup (Store s1) m = Some md"
    using am m by (simp add: h1)
  with 2 have r2: "reparent s1 (Some a) (Children md) = Inr s2"
    by (simp add: reparent_children_def andThen_Inr_iff deref_Some_iff)
  have a_1: "lookup (Store s1) a = Some ndA"
    by (simp add: h1)
  from reparent_heap [OF r2 ak a_1] have
    live: "\<forall>c \<in> set (Children md). \<exists>cd. lookup (Store s1) c = Some cd" and
    h2: "lookup (Store s2) =
           (\<lambda>b. if b \<in> set (Children md)
                then map_option (\<lambda>cd. cd\<lparr>Parent := Some a\<rparr>) (lookup (Store s1) b)
                else if b = a then Some ndB else lookup (Store s1) b)" and
    t2: "NodeTable s2 = NodeTable s1"
    by (simp_all add: ndB_def ndA_def fun_eq_iff)
  have live0: "\<forall>c \<in> set (Children md). \<exists>cd. lookup (Store s) c = Some cd"
    using live ak by (auto simp: h1 split: if_splits)
  have m_2: "lookup (Store s2) m = Some md" and a_2: "lookup (Store s2) a = Some ndB"
    using am mk ak m by (simp_all add: h2 h1)
  from adjust_parent_counts_D [OF 3] m_2 a_2 obtain s21 md1 where
    m31: "modify s2 (Parent ndB)
            (\<lambda>pd. pd\<lparr>NumberOfMarkers := NumberOfMarkers pd + NumberOfMarkers md\<rparr>) = Inr s21" and
    d31: "deref s21 (Some m) = Inr md1" and
    m32: "modify s21 (Parent md1)
            (\<lambda>pd. pd\<lparr>NumberOfMarkers := NumberOfMarkers pd - NumberOfMarkers md\<rparr>) = Inr s3"
    by (auto simp: deref_Some_iff)
  have pB: "Parent ndB = Parent nd"
    by (simp add: ndB_def ndA_def)
  from modify_heap [OF m31] obtain q qd2 where
    q: "Parent nd = Some q" and q2: "lookup (Store s2) q = Some qd2" and
    h21: "lookup (Store s21) = (lookup (Store s2))
             (q \<mapsto> qd2\<lparr>NumberOfMarkers := NumberOfMarkers qd2 + NumberOfMarkers md\<rparr>)" and
    t21: "NodeTable s21 = NodeTable s2"
    unfolding pB by auto
  from pa q have qn: "q \<noteq> a \<and> q \<noteq> m \<and> q \<notin> set (Children md)"
    by simp
  from q2 qn have qd: "lookup (Store s) q = Some qd2"
    by (simp add: h2 h1)
  define qdA where "qdA = qd2\<lparr>NumberOfMarkers := NumberOfMarkers qd2 + NumberOfMarkers md\<rparr>"
  have m_21: "lookup (Store s21) m = Some md"
    using m_2 qn by (simp add: h21)
  with d31 have md1: "md1 = md"
    by (simp add: deref_Some_iff)
  from modify_heap [OF m32] obtain qm qmd3 where
    qm: "Parent md = Some qm" and qm3: "lookup (Store s21) qm = Some qmd3" and
    h3: "lookup (Store s3) = (lookup (Store s21))
             (qm \<mapsto> qmd3\<lparr>NumberOfMarkers := NumberOfMarkers qmd3 - NumberOfMarkers md\<rparr>)" and
    t3: "NodeTable s3 = NodeTable s21"
    unfolding md1 by auto
  from pm qm have qmn: "qm \<noteq> a \<and> qm \<noteq> m \<and> qm \<notin> set (Children md)"
    by simp
  from qm3 qmn obtain qmd where qmd: "lookup (Store s) qm = Some qmd"
    and qmd3: "qmd3 = (if qm = q then qdA else qmd)"
    by (auto simp: h21 h2 h1 qdA_def qd split: if_splits)
  have m_3: "lookup (Store s3) m = Some md"
    using m_21 qmn by (simp add: h3)
  from detach_from_parent_D [OF 4] m_3 have
    m4: "modify s3 (Some qm) (\<lambda>pd. pd\<lparr>Children := set_erase m (Children pd)\<rparr>) = Inr s4"
    by (auto simp: deref_Some_iff qm)
  define qmB where "qmB = qmd3\<lparr>NumberOfMarkers := NumberOfMarkers qmd3 - NumberOfMarkers md,
                               Children := removeAll m (Children qmd)\<rparr>"
  have cq: "Children qmd3 = Children qmd"
    using qd qmd by (auto simp: qmd3 qdA_def)
  from modify_heap [OF m4] have
    h4: "lookup (Store s4) = (lookup (Store s3))(qm \<mapsto> qmB)" and
    t4: "NodeTable s4 = NodeTable s3"
    by (auto simp: h3 qmB_def set_erase_def cq)
  have m_4: "deref s4 (Some m) = Inr md" and a_4: "deref s4 (Some a) = Inr ndB"
    using m_3 a_2 qn qmn by (simp_all add: deref_Some_iff h4 h3 h21)
  from remember_parent_eq [OF m_4 qm a_4, of ptm] 5 have
    p': "ptm' = (if qm \<noteq> q then set_insert qm ptm else ptm)"
    by (simp add: pB q)
  from delete_merging_D [OF 6] have
    l: "0 \<le> l" "l < int (length (NodeTable s))" and
    h': "lookup (Store s') = (lookup (Store s4))(m := None)" and
    t': "NodeTable s' = (NodeTable s)[nat l := removeAll m (NodeTable s ! nat l)]"
    by (simp_all add: t4 t3 t21 t2 t1)
  have "lookup (Store s') =
        (\<lambda>b. if b = m then None
             else if b = a then Some ndB
             else if b \<in> set (Children md)
             then map_option (\<lambda>cd. cd\<lparr>Parent := Some a\<rparr>) (lookup (Store s) b)
             else if b = qm then Some qmB
             else if b = q then Some qdA
             else lookup (Store s) b)"
    using am ak mk qn qmn
    by (auto simp: fun_eq_iff h' h4 h3 h21 h2 h1 qdA_def)
  then show ?thesis
    using q qm qd qmd l t' p' live0
    by (simp add: ndB_def ndA_def qmB_def qmd3 qdA_def cong: if_cong)
qed

lemma tree_inv_child:
  assumes "tree_inv s X Y" "p \<in> level_set s l" "lookup (Store s) p = Some nd"
    "c \<in> set (Children nd)"
  shows "c \<in> level_set s (Suc l) \<and> (\<exists>cd. lookup (Store s) c = Some cd \<and> Parent cd = Some p)"
  using tree_inv_node [OF assms(1,2)] assms(3,4) by (auto simp: linked_def)

lemma tree_inv_parent:
  assumes "tree_inv s X Y" "p \<in> level_set s l" "lookup (Store s) p = Some nd"
    "Parent nd = Some q"
  shows "0 < l \<and> q \<in> level_set s (l - 1) \<and>
         (\<exists>qd. lookup (Store s) q = Some qd \<and> p \<in> set (Children qd))"
  using tree_inv_node [OF assms(1,2)] assms(3,4) by (auto simp: linked_def)

lemma tree_inv_good:
  assumes "tree_inv s X Y" "p \<in> level_set s l" "lookup (Store s) p = Some nd" "p \<notin> X"
  shows "good s l nd"
  using tree_inv_node [OF assms(1,2)] assms(3,4) by auto

lemma tree_inv_linked:
  assumes "tree_inv s X Y" "p \<in> level_set s l" "lookup (Store s) p = Some nd"
  shows "Level nd = int l \<and> distinct (Children nd) \<and> l < 20"
  using tree_inv_node [OF assms(1,2)] assms(3) by (auto simp: linked_def)

lemma consistent_cong:
  assumes "\<And>c. c \<in> set (Children nd) \<Longrightarrow>
             child_count s' c = child_count s c \<and> child_wx s' c = child_wx s c \<and>
             child_wy s' c = child_wy s c"
    and "Children nd' = Children nd" "NumberOfMarkers nd' = NumberOfMarkers nd"
    and "gcsCoords nd' = gcsCoords nd"
  shows "consistent s' nd' = consistent s nd"
proof -
  have e: "sum_list (map (child_count s') (Children nd)) = sum_list (map (child_count s) (Children nd))"
    "sum_list (map (child_wx s') (Children nd)) = sum_list (map (child_wx s) (Children nd))"
    "sum_list (map (child_wy s') (Children nd)) = sum_list (map (child_wy s) (Children nd))"
    by (rule arg_cong [where f = sum_list], simp add: assms(1))+
  show ?thesis
    by (simp only: consistent_def assms(2-4) e)
qed

lemma child_weights_eq:
  assumes "lookup (Store s) c = Some cd" "lookup (Store s') c = Some cd'"
    "NumberOfMarkers cd' = NumberOfMarkers cd" "gcsCoords cd' = gcsCoords cd"
  shows "child_count s' c = child_count s c \<and> child_wx s' c = child_wx s c \<and>
         child_wy s' c = child_wy s c"
  using assms by (simp add: child_count_def child_wx_def child_wy_def)

lemma level_set_update:
  assumes "l < length (NodeTable s)" "NodeTable s' = (NodeTable s)[l := xs]"
  shows "level_set s' k = (if k = l then set xs else level_set s k)"
  using assms by (simp add: level_set_def)

lemma merged_coords_weight:
  assumes "NumberOfMarkers nd + NumberOfMarkers md \<noteq> 0"
  shows "real_of_int (NumberOfMarkers nd + NumberOfMarkers md) * fst (merged_coords nd md)
           = real_of_int (NumberOfMarkers nd) * fst (gcsCoords nd)
             + real_of_int (NumberOfMarkers md) * fst (gcsCoords md)"
    and "real_of_int (NumberOfMarkers nd + NumberOfMarkers md) * snd (merged_coords nd md)
           = real_of_int (NumberOfMarkers nd) * snd (gcsCoords nd)
             + real_of_int (NumberOfMarkers md) * snd (gcsCoords md)"
proof -
  from assms have "real_of_int (NumberOfMarkers nd + NumberOfMarkers md) \<noteq> 0"
    by simp
  then show "real_of_int (NumberOfMarkers nd + NumberOfMarkers md) * fst (merged_coords nd md)
           = real_of_int (NumberOfMarkers nd) * fst (gcsCoords nd)
             + real_of_int (NumberOfMarkers md) * fst (gcsCoords md)"
    and "real_of_int (NumberOfMarkers nd + NumberOfMarkers md) * snd (merged_coords nd md)
           = real_of_int (NumberOfMarkers nd) * snd (gcsCoords nd)
             + real_of_int (NumberOfMarkers md) * snd (gcsCoords md)"
    by (simp_all add: merged_coords_def mult.commute)
qed

lemma MergeNodes_tree:
  assumes mn: "MergeNodes s (Some a) m ptm (int l) = Inr (s', ptm')"
    and inv: "tree_inv s X {}"
    and a: "a \<in> level_set s l" and m: "m \<in> level_set s l" and am: "a \<noteq> m"
    and mX: "m \<in> X \<Longrightarrow> a \<in> X"
  shows "\<exists>q qm. 0 < l \<and> parent_of s a = Some q \<and> parent_of s m = Some qm \<and>
           ptm' = (if qm \<noteq> q then set_insert qm ptm else ptm) \<and>
           tree_inv s' (X \<union> {q, qm} \<union> up s {q, qm}) {} \<and>
           (\<forall>k. level_set s' k = (if k = l then level_set s k - {m} else level_set s k)) \<and>
           (\<forall>p. p \<noteq> m \<longrightarrow> p \<notin> level_set s (Suc l) \<longrightarrow> parent_of s' p = parent_of s p) \<and>
           (has_children s a \<longrightarrow> has_children s' a)"
proof -
  from tree_inv_node [OF inv a] obtain nd where nd: "lookup (Store s) a = Some nd"
    by blast
  from tree_inv_node [OF inv m] obtain md where md: "lookup (Store s) m = Some md"
    and l20: "l < 20"
    by blast
  from inv have len: "length (NodeTable s) = 20"
    by (simp add: tree_inv_def)
  define kids where "kids = set (Children md)"
  have kids: "c \<in> level_set s (Suc l) \<and> (\<exists>cd. lookup (Store s) c = Some cd \<and> Parent cd = Some m)"
    if "c \<in> kids" for c
    using tree_inv_child [OF inv m md] that by (simp add: kids_def)
  have lev: "i = j" if "p \<in> level_set s i" "p \<in> level_set s j" for p i j
    using level_unique [OF inv that] .
  have lev_ne: "p \<noteq> p'" if "p \<in> level_set s i" "p' \<in> level_set s j" "i \<noteq> j" for p p' i j
    using lev that by blast
  have ak: "a \<notin> set (Children md)"
    using kids [of a] lev [OF a, of "Suc l"] by (auto simp: kids_def)
  have mk: "m \<notin> set (Children md)"
    using kids [of m] lev [OF m, of "Suc l"] by (auto simp: kids_def)
  have pa: "\<forall>q. Parent nd = Some q \<longrightarrow> q \<noteq> a \<and> q \<noteq> m \<and> q \<notin> set (Children md)"
  proof (intro allI impI)
    fix q assume that: "Parent nd = Some q"
    from tree_inv_parent [OF inv a nd that] have "0 < l" "q \<in> level_set s (l - 1)"
      by auto
    with lev [OF a, of "l - 1"] lev [OF m, of "l - 1"] kids [of q] lev [of q "l - 1" "Suc l"]
    show "q \<noteq> a \<and> q \<noteq> m \<and> q \<notin> set (Children md)"
      by (auto simp: kids_def)
  qed
  have pm: "\<forall>q. Parent md = Some q \<longrightarrow> q \<noteq> a \<and> q \<noteq> m \<and> q \<notin> set (Children md)"
  proof (intro allI impI)
    fix q assume that: "Parent md = Some q"
    from tree_inv_parent [OF inv m md that] have "0 < l" "q \<in> level_set s (l - 1)"
      by auto
    with lev [OF a, of "l - 1"] lev [OF m, of "l - 1"] kids [of q] lev [of q "l - 1" "Suc l"]
    show "q \<noteq> a \<and> q \<noteq> m \<and> q \<notin> set (Children md)"
      by (auto simp: kids_def)
  qed
  define nd' where "nd' = nd\<lparr>gcsCoords := merged_coords nd md,
                           NumberOfMarkers := NumberOfMarkers nd + NumberOfMarkers md,
                           MarkerId := - 1,
                           Children := foldl (\<lambda>xs c. set_insert c xs) (Children nd) (Children md)\<rparr>"
  from MergeNodes_effect [OF mn nd md am ak mk pa pm] obtain q qm qd qmd where
    q: "Parent nd = Some q" and qm: "Parent md = Some qm" and
    qd: "lookup (Store s) q = Some qd" and qmd: "lookup (Store s) qm = Some qmd" and
    tab: "NodeTable s' = (NodeTable s)[nat (int l) := removeAll m (NodeTable s ! nat (int l))]" and
    ptm': "ptm' = (if qm \<noteq> q then set_insert qm ptm else ptm)" and
    H: "lookup (Store s') =
        (\<lambda>b. if b = m then None
             else if b = a then Some nd'
             else if b \<in> set (Children md)
             then map_option (\<lambda>cd. cd\<lparr>Parent := Some a\<rparr>) (lookup (Store s) b)
             else if b = qm
             then Some ((if qm = q
                         then qd\<lparr>NumberOfMarkers := NumberOfMarkers qd + NumberOfMarkers md\<rparr>
                         else qmd)
                        \<lparr>NumberOfMarkers :=
                           NumberOfMarkers (if qm = q
                              then qd\<lparr>NumberOfMarkers := NumberOfMarkers qd + NumberOfMarkers md\<rparr>
                              else qmd) - NumberOfMarkers md,
                         Children := removeAll m (Children qmd)\<rparr>)
             else if b = q
             then Some (qd\<lparr>NumberOfMarkers := NumberOfMarkers qd + NumberOfMarkers md\<rparr>)
             else lookup (Store s) b)"
    by (elim exE conjE) (rule that [unfolded nd'_def])
  from pa q have qn: "q \<noteq> a \<and> q \<noteq> m \<and> q \<notin> set (Children md)"
    by simp
  from pm qm have qmn: "qm \<noteq> a \<and> qm \<noteq> m \<and> qm \<notin> set (Children md)"
    by simp
  from tree_inv_parent [OF inv a nd q] have l0: "0 < l"
    by simp
  have L: "level_set s' k = (if k = l then level_set s k - {m} else level_set s k)" for k
  proof -
    have l_lt: "l < length (NodeTable s)"
      using l20 len by simp
    have tab': "NodeTable s' = (NodeTable s)[l := removeAll m (NodeTable s ! l)]"
      using tab by simp
    show ?thesis
      unfolding level_set_update [OF l_lt tab'] using l_lt by (simp add: level_set_def)
  qed
  have F: "\<exists>bd'. lookup (Store s') b = Some bd' \<and> Level bd' = Level bd \<and>
             Parent bd' = (if b \<in> kids then Some a else Parent bd) \<and>
             Children bd' = (if b = a then foldl (\<lambda>xs c. set_insert c xs) (Children nd) (Children md)
                             else if b = qm then removeAll m (Children bd) else Children bd) \<and>
             (b \<noteq> a \<longrightarrow> b \<noteq> q \<longrightarrow> b \<noteq> qm \<longrightarrow>
                NumberOfMarkers bd' = NumberOfMarkers bd \<and> gcsCoords bd' = gcsCoords bd)"
    if "b \<noteq> m" "lookup (Store s) b = Some bd" for b bd
    using that nd qd qmd qn qmn ak
    by (auto simp: H kids_def nd'_def)
  have FC: "\<exists>bd'. lookup (Store s') b = Some bd' \<and> set (Children bd) - {m} \<subseteq> set (Children bd')"
    if "b \<noteq> m" "lookup (Store s) b = Some bd" for b bd
  proof (cases "b = a")
    case True
    with that nd have "bd = nd"
      by simp
    with F [OF that] True show ?thesis
      by auto
  next
    case False
    with F [OF that] show ?thesis
      by (auto split: if_splits)
  qed
  have P: "parent_of s' p = parent_of s p" if "p \<noteq> m" "p \<notin> level_set s (Suc l)" for p
  proof (cases "lookup (Store s) p")
    case None
    with that nd qd qmd show ?thesis
      by (auto simp: parent_of_def H)
  next
    case (Some pd)
    from that(2) kids [of p] have "p \<notin> kids"
      by auto
    with F [OF that(1) Some] Some show ?thesis
      by (auto simp: parent_of_def)
  qed
  have W: "child_count s' c = child_count s c \<and> child_wx s' c = child_wx s c \<and>
           child_wy s' c = child_wy s c"
    if "lookup (Store s) c = Some cd" "c \<noteq> m" "c \<noteq> a" "c \<noteq> q" "c \<noteq> qm" for c cd
  proof -
    from F [OF that(2,1)] that(3-5) obtain cd' where
      "lookup (Store s') c = Some cd'" "NumberOfMarkers cd' = NumberOfMarkers cd"
      "gcsCoords cd' = gcsCoords cd"
      by blast
    then show ?thesis
      by (rule child_weights_eq [OF that(1)])
  qed
  have hc: "has_children s a \<longrightarrow> has_children s' a"
  proof
    assume "has_children s a"
    with nd have "set (Children nd) \<noteq> {}"
      by (simp add: has_children_def)
    then have "set (Children nd') \<noteq> {}"
      by (simp add: nd'_def)
    then show "has_children s' a"
      using am by (auto simp: has_children_def H)
  qed
  have T: "tree_inv s' (X \<union> {q, qm} \<union> up s {q, qm}) {}"
    unfolding tree_inv_def
  proof (intro conjI allI impI ballI)
    show "length (NodeTable s') = 20"
      using len by (simp add: tab)
  next
    fix l0 p
    assume l0': "l0 < 20" and "p \<in> level_set s' l0"
    then have p: "p \<in> level_set s l0" and pm': "p \<noteq> m"
      using lev [OF m, of l0] by (auto simp: L split: if_splits)
    from tree_inv_node [OF inv p] obtain pd where pd: "lookup (Store s) p = Some pd"
      by blast
    from F [OF pm' pd] obtain pd' where pd': "lookup (Store s') p = Some pd'" and
      Lpd: "Level pd' = Level pd" and
      Ppd: "Parent pd' = (if p \<in> kids then Some a else Parent pd)" and
      Cpd: "Children pd' = (if p = a then foldl (\<lambda>xs c. set_insert c xs) (Children nd) (Children md)
                             else if p = qm then removeAll m (Children pd) else Children pd)" and
      Wpd: "p \<noteq> a \<longrightarrow> p \<noteq> q \<longrightarrow> p \<noteq> qm \<longrightarrow>
                NumberOfMarkers pd' = NumberOfMarkers pd \<and> gcsCoords pd' = gcsCoords pd"
      by blast
    have disj: "set (Children nd) \<inter> set (Children md) = {}"
    proof -
      have False if "c \<in> set (Children nd)" "c \<in> set (Children md)" for c
        using tree_inv_child [OF inv a nd that(1)] tree_inv_child [OF inv m md that(2)] am
        by auto
      then show ?thesis
        by auto
    qed
    have d1: "distinct (Children pd')"
    proof (cases "p = a")
      case True
      with tree_inv_linked [OF inv a nd] tree_inv_linked [OF inv m md] disj show ?thesis
        by (simp add: Cpd distinct_foldl_insert)
    next
      case False
      with tree_inv_linked [OF inv p pd] show ?thesis
        by (auto simp: Cpd distinct_removeAll)
    qed
    have ch: "c \<in> level_set s' (Suc l0) \<and>
              (\<exists>cd. lookup (Store s') c = Some cd \<and> Parent cd = Some p)"
      if c: "c \<in> set (Children pd')" for c
    proof (cases "c \<in> kids")
      case True
      with c have pa: "p = a"
      proof -
        from kids [OF True] obtain cd where "lookup (Store s) c = Some cd" "Parent cd = Some m"
          by blast
        show ?thesis
        proof (rule ccontr)
          assume "p \<noteq> a"
          with c have "c \<in> set (Children pd)"
            by (auto simp: Cpd split: if_splits)
          from tree_inv_child [OF inv p pd this] \<open>lookup (Store s) c = Some cd\<close>
            \<open>Parent cd = Some m\<close> pm'
          show False
            by auto
        qed
      qed
      with p lev [OF a, of l0] have ll: "l0 = l"
        by auto
      from kids [OF True] obtain cd where cd: "lookup (Store s) c = Some cd"
        and cl: "c \<in> level_set s (Suc l)"
        by blast
      from True mk have "c \<noteq> m"
        by (auto simp: kids_def)
      from F [OF this cd] True cl show ?thesis
        by (auto simp: L ll pa)
    next
      case False
      with c have c0: "c \<in> set (Children pd)"
        using nd pd by (auto simp: Cpd kids_def split: if_splits)
      from tree_inv_child [OF inv p pd c0] obtain cd where
        cl: "c \<in> level_set s (Suc l0)" and cd: "lookup (Store s) c = Some cd"
        and cp: "Parent cd = Some p"
        by blast
      have cm: "c \<noteq> m"
      proof
        assume "c = m"
        with cd md cp qm have "p = qm"
          by simp
        with c \<open>c = m\<close> qmn show False
          by (auto simp: Cpd)
      qed
      from F [OF cm cd] False cp cl cm show ?thesis
        by (auto simp: L)
    qed
    have par: "case Parent pd' of
        None \<Rightarrow> l0 = 0 \<or> p \<in> {}
      | Some r \<Rightarrow> 0 < l0 \<and> r \<in> level_set s' (l0 - 1) \<and>
                  (\<exists>rd. lookup (Store s') r = Some rd \<and> p \<in> set (Children rd))"
    proof (cases "p \<in> kids")
      case True
      with kids [of p] lev [OF p, of "Suc l"] have ll: "l0 = Suc l"
        by auto
      have "a \<in> level_set s' l"
        using a am by (simp add: L)
      moreover have "lookup (Store s') a = Some nd'"
        using am by (simp add: H)
      moreover have "p \<in> set (Children nd')"
        using True by (simp add: nd'_def kids_def)
      ultimately show ?thesis
        using True by (auto simp: Ppd ll)
    next
      case False
      show ?thesis
      proof (cases "Parent pd")
        case None
        with tree_inv_node [OF inv p] pd False show ?thesis
          by (auto simp: Ppd linked_def)
      next
        case (Some r)
        from tree_inv_parent [OF inv p pd Some] obtain rd where
          r0: "0 < l0" and rl: "r \<in> level_set s (l0 - 1)" and
          rd: "lookup (Store s) r = Some rd" and pr: "p \<in> set (Children rd)"
          by blast
        have rm: "r \<noteq> m"
          using rd md pr False by (auto simp: kids_def)
        from FC [OF rm rd] pr pm' have "\<exists>rd'. lookup (Store s') r = Some rd' \<and> p \<in> set (Children rd')"
          by auto
        with r0 rl rm False Some show ?thesis
          by (auto simp: Ppd L)
      qed
    qed
    have lk: "linked s' {} l0 p pd'"
      unfolding linked_def using tree_inv_linked [OF inv p pd] Lpd d1 ch par
      by simp
    have gd: "good s' l0 pd'" if notX: "p \<notin> X \<union> {q, qm} \<union> up s {q, qm}"
    proof (cases "p = a")
      case True
      with p lev [OF a, of l0] have ll: "l0 = l"
        by auto
      from notX True mX have "a \<notin> X" "m \<notin> X"
        by auto
      from tree_inv_good [OF inv a nd this(1)] tree_inv_good [OF inv m md this(2)]
      have ga: "good s l nd" and gm: "good s l md" .
      have pdn: "pd' = nd'"
        using pd' True am by (simp add: H)
      have cnt: "1 \<le> NumberOfMarkers nd'"
        using ga gm by (simp add: good_def nd'_def)
      have cons: "Children nd' \<noteq> [] \<and> consistent s' nd'" if l19: "l < 19"
      proof -
        from ga gm l19 have ca: "Children nd \<noteq> []" "consistent s nd" "consistent s md"
          and n1: "1 \<le> NumberOfMarkers nd" "1 \<le> NumberOfMarkers md"
          by (simp_all add: good_def)
        from ca(1) have "set (Children nd') \<noteq> {}"
          by (simp add: nd'_def)
        then have ne: "Children nd' \<noteq> []"
          by auto
        have wa: "child_count s' c = child_count s c \<and> child_wx s' c = child_wx s c \<and>
                  child_wy s' c = child_wy s c"
          if "c \<in> set (Children nd) \<union> set (Children md)" for c
        proof -
          from that tree_inv_child [OF inv a nd, of c] tree_inv_child [OF inv m md, of c]
          obtain cd where cl: "c \<in> level_set s (Suc l)" and cd: "lookup (Store s) c = Some cd"
            by auto
          from tree_inv_parent [OF inv a nd q] tree_inv_parent [OF inv m md qm]
          have "q \<in> level_set s (l - 1)" "qm \<in> level_set s (l - 1)"
            by auto
          with lev_ne [OF cl a] lev_ne [OF cl m] lev_ne [OF cl, of q "l - 1"]
            lev_ne [OF cl, of qm "l - 1"]
          have "c \<noteq> m" "c \<noteq> a" "c \<noteq> q" "c \<noteq> qm"
            by auto
          from W [OF cd this] show ?thesis .
        qed
        have e: "sum_list (map (child_count s') (Children nd)) = sum_list (map (child_count s) (Children nd))"
          "sum_list (map (child_wx s') (Children nd)) = sum_list (map (child_wx s) (Children nd))"
          "sum_list (map (child_wy s') (Children nd)) = sum_list (map (child_wy s) (Children nd))"
          "sum_list (map (child_count s') (Children md)) = sum_list (map (child_count s) (Children md))"
          "sum_list (map (child_wx s') (Children md)) = sum_list (map (child_wx s) (Children md))"
          "sum_list (map (child_wy s') (Children md)) = sum_list (map (child_wy s) (Children md))"
          by (rule arg_cong [where f = sum_list], simp add: wa)+
        from n1 have nz: "NumberOfMarkers nd + NumberOfMarkers md \<noteq> 0"
          by simp
        have dm: "distinct (Children md)"
          using tree_inv_linked [OF inv m md] by simp
        from ca(2) [unfolded consistent_def] have
          a1: "NumberOfMarkers nd = sum_list (map (child_count s) (Children nd))" and
          a2: "real_of_int (NumberOfMarkers nd) * fst (gcsCoords nd)
                 = sum_list (map (child_wx s) (Children nd))" and
          a3: "real_of_int (NumberOfMarkers nd) * snd (gcsCoords nd)
                 = sum_list (map (child_wy s) (Children nd))"
          by blast+
        from ca(3) [unfolded consistent_def] have
          m1: "NumberOfMarkers md = sum_list (map (child_count s) (Children md))" and
          m2: "real_of_int (NumberOfMarkers md) * fst (gcsCoords md)
                 = sum_list (map (child_wx s) (Children md))" and
          m3: "real_of_int (NumberOfMarkers md) * snd (gcsCoords md)
                 = sum_list (map (child_wy s) (Children md))"
          by blast+
        have c1: "NumberOfMarkers nd' = sum_list (map (child_count s') (Children nd'))"
          by (simp add: nd'_def sum_foldl_insert [OF dm disj] e a1 [symmetric] m1 [symmetric])
        have "real_of_int (NumberOfMarkers nd') * fst (gcsCoords nd')
                = real_of_int (NumberOfMarkers nd + NumberOfMarkers md) * fst (merged_coords nd md)"
          by (simp add: nd'_def)
        also have "\<dots> = real_of_int (NumberOfMarkers nd) * fst (gcsCoords nd)
                         + real_of_int (NumberOfMarkers md) * fst (gcsCoords md)"
          by (rule merged_coords_weight(1) [OF nz])
        also have "\<dots> = sum_list (map (child_wx s) (Children nd))
                         + sum_list (map (child_wx s) (Children md))"
          by (simp only: a2 m2)
        also have "\<dots> = sum_list (map (child_wx s') (Children nd'))"
          by (simp add: nd'_def sum_foldl_insert [OF dm disj] e)
        finally have c2: "real_of_int (NumberOfMarkers nd') * fst (gcsCoords nd')
                = sum_list (map (child_wx s') (Children nd'))" .
        have "real_of_int (NumberOfMarkers nd') * snd (gcsCoords nd')
                = real_of_int (NumberOfMarkers nd + NumberOfMarkers md) * snd (merged_coords nd md)"
          by (simp add: nd'_def)
        also have "\<dots> = real_of_int (NumberOfMarkers nd) * snd (gcsCoords nd)
                         + real_of_int (NumberOfMarkers md) * snd (gcsCoords md)"
          by (rule merged_coords_weight(2) [OF nz])
        also have "\<dots> = sum_list (map (child_wy s) (Children nd))
                         + sum_list (map (child_wy s) (Children md))"
          by (simp only: a3 m3)
        also have "\<dots> = sum_list (map (child_wy s') (Children nd'))"
          by (simp add: nd'_def sum_foldl_insert [OF dm disj] e)
        finally have c3: "real_of_int (NumberOfMarkers nd') * snd (gcsCoords nd')
                = sum_list (map (child_wy s') (Children nd'))" .
        from c1 c2 c3 have "consistent s' nd'"
          unfolding consistent_def by (intro conjI)
        with ne show ?thesis
          by simp
      qed
      from cnt cons show ?thesis
        by (simp add: good_def pdn ll)
    next
      case False
      with notX have n: "p \<noteq> a" "p \<noteq> q" "p \<noteq> qm" "p \<notin> X" "p \<notin> up s {q, qm}"
        by auto
      from tree_inv_good [OF inv p pd n(4)] have g: "good s l0 pd" .
      have "consistent s' pd' = consistent s pd"
      proof (rule consistent_cong)
        fix c assume c: "c \<in> set (Children pd)"
        from tree_inv_child [OF inv p pd c] obtain cd where
          cd: "lookup (Store s) c = Some cd" and cp: "Parent cd = Some p"
          by blast
        have "c \<noteq> m" "c \<noteq> a" "c \<noteq> q" "c \<noteq> qm"
          using cd cp md nd q qm qd qmd n(1,2,3,5) by (auto simp: up_def parent_of_def)
        from W [OF cd this]
        show "child_count s' c = child_count s c \<and> child_wx s' c = child_wx s c \<and>
              child_wy s' c = child_wy s c" .
      qed (use n Cpd Wpd in simp_all)
      with g n Cpd Wpd show ?thesis
        by (simp add: good_def)
    qed
    from pd' lk gd show "\<exists>nd. lookup (Store s') p = Some nd \<and> linked s' {} l0 p nd \<and>
            (p \<notin> X \<union> {q, qm} \<union> up s {q, qm} \<longrightarrow> good s' l0 nd)"
      by blast
  qed
  from nd md q qm have "parent_of s a = Some q" "parent_of s m = Some qm"
    by (simp_all add: parent_of_def)
  with l0 ptm' T L P hc show ?thesis
    by blast
qed

lemma up_eq:
  assumes "\<And>z. z \<in> A \<Longrightarrow> parent_of s' z = parent_of s z"
  shows "up s' A = up s A"
  using assms by (auto simp: up_def)

lemma up_mono: "A \<subseteq> B \<Longrightarrow> up s A \<subseteq> up s B"
  by (auto simp: up_def)

lemma up_Un: "up s (A \<union> B) = up s A \<union> up s B"
  by (auto simp: up_def)

lemma up_level:
  assumes inv: "tree_inv s X {}" and A: "A \<subseteq> level_set s l" and q: "q \<in> up s A"
  shows "0 < l \<and> q \<in> level_set s (l - 1)"
proof -
  from q obtain p where p: "p \<in> A" "parent_of s p = Some q"
    by (auto simp: up_def)
  with A have pl: "p \<in> level_set s l"
    by auto
  from p(2) obtain nd where nd: "lookup (Store s) p = Some nd" "Parent nd = Some q"
    by (auto simp: parent_of_def split: option.splits)
  from tree_inv_parent [OF inv pl nd] show ?thesis
    by simp
qed

lemma up_level0:
  assumes inv: "tree_inv s X {}" and A: "A \<subseteq> level_set s 0"
  shows "up s A = {}"
  using up_level [OF inv A] by auto

lemma tree_inv_drop_dead:
  assumes "tree_inv s X Y" "\<And>k. m \<notin> level_set s k"
  shows "tree_inv s (X - {m}) Y"
  using assms unfolding tree_inv_def by blast

lemma parent_has_children:
  assumes inv: "tree_inv s X Y" and p: "p \<in> level_set s l" and q: "parent_of s p = Some q"
  shows "has_children s q \<and> 0 < l \<and> q \<in> level_set s (l - 1)"
proof -
  from q obtain nd where nd: "lookup (Store s) p = Some nd" "Parent nd = Some q"
    by (auto simp: parent_of_def split: option.splits)
  from tree_inv_parent [OF inv p nd] show ?thesis
    by (auto simp: has_children_def)
qed

lemma parent_of_level0:
  assumes inv: "tree_inv s X {}" and p: "p \<in> level_set s 0"
  shows "parent_of s p = None"
proof (cases "parent_of s p")
  case (Some q)
  from parent_has_children [OF inv p Some] show ?thesis
    by simp
qed simp

lemma parent_of_Some:
  assumes inv: "tree_inv s X {}" and p: "p \<in> level_set s (Suc l)"
  shows "\<exists>q. parent_of s p = Some q"
proof -
  from tree_inv_node [OF inv p] obtain nd where
    nd: "lookup (Store s) p = Some nd" "linked s {} (Suc l) p nd"
    by blast
  then show ?thesis
    by (cases "Parent nd") (auto simp: linked_def parent_of_def)
qed

text \<open>Where the stale nodes are: at the level of the merge and the two levels below.\<close>

lemma stale_below:
  assumes inv: "tree_inv s X {}" and A: "A \<subseteq> level_set s l"
    and B: "B \<subseteq> level_set s (l - 1)" and B0: "l = 0 \<longrightarrow> B = {}"
    and p: "p \<in> (up s A \<union> B) \<union> up s (up s A \<union> B)"
  shows "\<exists>j < l. p \<in> level_set s j"
proof -
  have W: "0 < l \<and> w \<in> level_set s (l - 1)" if "w \<in> up s A \<union> B" for w
    using that up_level [OF inv A, of w] B B0 by auto
  from p show ?thesis
  proof
    assume "p \<in> up s A \<union> B"
    from W [OF this] show ?thesis
      by (intro exI [of _ "l - 1"]) simp
  next
    assume pu: "p \<in> up s (up s A \<union> B)"
    then obtain w where w: "w \<in> up s A \<union> B"
      by (auto simp: up_def)
    from W [OF w] have l: "0 < l"
      by simp
    have "up s A \<union> B \<subseteq> level_set s (l - 1)"
      using W by auto
    from up_level [OF inv this pu] l show ?thesis
      by (intro exI [of _ "l - 1 - 1"]) simp
  qed
qed

lemma stale_above:
  assumes inv: "tree_inv s X {}" and A: "A \<subseteq> level_set s l"
    and B: "B \<subseteq> level_set s (l - 1)" and B0: "l = 0 \<longrightarrow> B = {}"
    and c: "c \<in> level_set s k" and k: "l < k"
  shows "c \<notin> stale s A B"
proof
  assume "c \<in> stale s A B"
  then consider "c \<in> A" | "c \<in> (up s A \<union> B) \<union> up s (up s A \<union> B)"
    by (auto simp: stale_def)
  then show False
  proof cases
    case 1
    with A have "c \<in> level_set s l"
      by auto
    from level_unique [OF inv this c] k show False
      by simp
  next
    case 2
    from stale_below [OF inv A B B0 2] obtain j where "j < l" "c \<in> level_set s j"
      by blast
    with level_unique [OF inv this(2) c] k show False
      by simp
  qed
qed

lemma sum_children_result:
  assumes "sum_children s cs (n, x, y) = Inr r"
  shows "r = (n + sum_list (map (child_count s) cs),
              x + sum_list (map (child_wx s) cs),
              y + sum_list (map (child_wy s) cs))"
  using assms
proof (induction cs arbitrary: n x y)
  case Nil
  then show ?case by simp
next
  case (Cons c cs)
  from Cons.prems obtain cd where cd: "lookup (Store s) c = Some cd" and
    r: "sum_children s cs (n + NumberOfMarkers cd,
          x + real_of_int (NumberOfMarkers cd) * fst (gcsCoords cd),
          y + real_of_int (NumberOfMarkers cd) * snd (gcsCoords cd)) = Inr r"
    by (auto simp: andThen_Inr_iff deref_Some_iff)
  from Cons.IH [OF r] cd show ?case
    by (simp add: child_count_def child_wx_def child_wy_def)
qed

lemma recompute_D:
  assumes "recompute s (Some a) = Inr s'"
  shows "\<exists>nd. lookup (Store s) a = Some nd \<and>
           modify s (Some a)
             (\<lambda>nd. nd\<lparr>NumberOfMarkers := sum_list (map (child_count s) (Children nd)),
                      MarkerId := (if sum_list (map (child_count s) (Children nd)) > 1 then - 1
                                   else MarkerId nd),
                      gcsCoords :=
                        (sum_list (map (child_wx s) (Children nd))
                           / real_of_int (sum_list (map (child_count s) (Children nd))),
                         sum_list (map (child_wy s) (Children nd))
                           / real_of_int (sum_list (map (child_count s) (Children nd))))\<rparr>)
           = Inr s'"
proof -
  from assms obtain nd r where nd: "lookup (Store s) a = Some nd" and
    sc: "sum_children s (Children nd) (0, 0, 0) = Inr r" and
    m: "(case r of (numMarkers, numerator0, numerator1) \<Rightarrow>
          modify s (Some a)
            (\<lambda>nd. nd\<lparr>NumberOfMarkers := numMarkers,
                     MarkerId := (if numMarkers > 1 then - 1 else MarkerId nd),
                     gcsCoords := (numerator0 / real_of_int numMarkers,
                                   numerator1 / real_of_int numMarkers)\<rparr>)) = Inr s'"
    by (auto simp: recompute_def andThen_Inr_iff deref_Some_iff)
  from sum_children_result [OF sc] have
    r: "r = (sum_list (map (child_count s) (Children nd)),
             sum_list (map (child_wx s) (Children nd)),
             sum_list (map (child_wy s) (Children nd)))"
    by simp
  from m nd show ?thesis
    unfolding r by (auto simp: modify_Inr_iff)
qed

lemma sum_list_ge1:
  "xs \<noteq> [] \<Longrightarrow> (\<forall>x \<in> set xs. 1 \<le> f x) \<Longrightarrow> (1 :: int) \<le> sum_list (map f xs)"
proof (induction xs)
  case Nil
  then show ?case by simp
next
  case (Cons x xs)
  then show ?case
    by (cases xs) auto
qed

lemma linked_frame:
  assumes lk: "linked s Y l p pd"
    and same: "Level pd' = Level pd" "Parent pd' = Parent pd" "Children pd' = Children pd"
    and ch: "\<And>c cd. c \<in> set (Children pd) \<Longrightarrow> c \<in> level_set s (Suc l) \<Longrightarrow>
               lookup (Store s) c = Some cd \<Longrightarrow> Parent cd = Some p \<Longrightarrow>
               c \<in> level_set s' (Suc l) \<and> (\<exists>cd'. lookup (Store s') c = Some cd' \<and> Parent cd' = Some p)"
    and pr: "\<And>r rd. Parent pd = Some r \<Longrightarrow> r \<in> level_set s (l - 1) \<Longrightarrow>
               lookup (Store s) r = Some rd \<Longrightarrow> p \<in> set (Children rd) \<Longrightarrow>
               r \<in> level_set s' (l - 1) \<and> (\<exists>rd'. lookup (Store s') r = Some rd' \<and> p \<in> set (Children rd'))"
    and Y: "Parent pd = None \<Longrightarrow> p \<in> Y \<Longrightarrow> l = 0 \<or> p \<in> Y'"
  shows "linked s' Y' l p pd'"
proof -
  from lk have 1: "Level pd = int l" "distinct (Children pd)"
    and 2: "\<forall>c \<in> set (Children pd).
              c \<in> level_set s (Suc l) \<and> (\<exists>cd. lookup (Store s) c = Some cd \<and> Parent cd = Some p)"
    and 3: "case Parent pd of
        None \<Rightarrow> l = 0 \<or> p \<in> Y
      | Some q \<Rightarrow> 0 < l \<and> q \<in> level_set s (l - 1) \<and>
                  (\<exists>qd. lookup (Store s) q = Some qd \<and> p \<in> set (Children qd))"
    by (simp_all add: linked_def)
  have c: "\<forall>c \<in> set (Children pd').
              c \<in> level_set s' (Suc l) \<and> (\<exists>cd. lookup (Store s') c = Some cd \<and> Parent cd = Some p)"
    unfolding same using 2 ch by blast
  have p: "case Parent pd' of
        None \<Rightarrow> l = 0 \<or> p \<in> Y'
      | Some q \<Rightarrow> 0 < l \<and> q \<in> level_set s' (l - 1) \<and>
                  (\<exists>qd. lookup (Store s') q = Some qd \<and> p \<in> set (Children qd))"
  proof (cases "Parent pd")
    case None
    with 3 Y show ?thesis
      by (auto simp: same)
  next
    case (Some r)
    with 3 obtain rd where "0 < l" "r \<in> level_set s (l - 1)" "lookup (Store s) r = Some rd"
      "p \<in> set (Children rd)"
      by auto
    with pr [OF Some this(2,3,4)] Some show ?thesis
      by (simp add: same)
  qed
  from 1 c p show ?thesis
    by (simp add: linked_def same)
qed

lemma recompute_tree:
  assumes rc: "recompute s (Some a) = Inr s'" and inv: "tree_inv s X {}"
    and a: "a \<in> level_set s l" and hc: "has_children s a"
    and kg: "\<forall>c \<in> level_set s (Suc l). c \<notin> X"
    and X': "X - {a} \<subseteq> X'" "up s {a} \<subseteq> X'"
  shows "tree_inv s' X' {} \<and> (\<forall>k. level_set s' k = level_set s k) \<and>
         (\<forall>p. parent_of s' p = parent_of s p) \<and> has_children s' a"
proof -
  from recompute_D [OF rc] obtain nd where nd: "lookup (Store s) a = Some nd" and
    m: "modify s (Some a)
             (\<lambda>nd. nd\<lparr>NumberOfMarkers := sum_list (map (child_count s) (Children nd)),
                      MarkerId := (if sum_list (map (child_count s) (Children nd)) > 1 then - 1
                                   else MarkerId nd),
                      gcsCoords :=
                        (sum_list (map (child_wx s) (Children nd))
                           / real_of_int (sum_list (map (child_count s) (Children nd))),
                         sum_list (map (child_wy s) (Children nd))
                           / real_of_int (sum_list (map (child_count s) (Children nd))))\<rparr>)
           = Inr s'"
    by blast
  define N where "N = sum_list (map (child_count s) (Children nd))"
  define nd' where "nd' = nd\<lparr>NumberOfMarkers := N,
                      MarkerId := (if N > 1 then - 1 else MarkerId nd),
                      gcsCoords :=
                        (sum_list (map (child_wx s) (Children nd)) / real_of_int N,
                         sum_list (map (child_wy s) (Children nd)) / real_of_int N)\<rparr>"
  from modify_heap [OF m] nd have
    H: "lookup (Store s') = (lookup (Store s))(a \<mapsto> nd')" and
    tab: "NodeTable s' = NodeTable s"
    by (auto simp: nd'_def N_def)
  have L: "level_set s' k = level_set s k" for k
    by (simp add: level_set_def tab)
  have P: "parent_of s' p = parent_of s p" for p
    using nd by (simp add: parent_of_def H nd'_def)
  from hc nd have ne: "Children nd \<noteq> []"
    by (simp add: has_children_def)
  then have hc': "has_children s' a"
    by (simp add: has_children_def H nd'_def)
  have kid: "c \<in> level_set s (Suc l) \<and> c \<noteq> a \<and> 1 \<le> child_count s c"
    if "c \<in> set (Children nd)" for c
  proof -
    from tree_inv_child [OF inv a nd that] obtain cd where
      cl: "c \<in> level_set s (Suc l)" and cd: "lookup (Store s) c = Some cd"
      by blast
    from kg cl have "c \<notin> X"
      by simp
    from tree_inv_good [OF inv cl cd this] cd have "1 \<le> child_count s c"
      by (simp add: good_def child_count_def)
    moreover from level_ne [OF inv cl a] have "c \<noteq> a"
      by simp
    ultimately show ?thesis
      using cl by simp
  qed
  have N1: "1 \<le> N"
    unfolding N_def using ne kid by (intro sum_list_ge1) auto
  have Wn: "child_count s' c = child_count s c \<and> child_wx s' c = child_wx s c \<and>
            child_wy s' c = child_wy s c" if "c \<noteq> a" for c
    using that by (simp add: child_count_def child_wx_def child_wy_def H)
  have "tree_inv s' X' {}"
    unfolding tree_inv_def
  proof (intro conjI allI impI ballI)
    show "length (NodeTable s') = 20"
      using inv by (simp add: tab tree_inv_def)
  next
    fix l0 p
    assume "l0 < 20" and "p \<in> level_set s' l0"
    then have p: "p \<in> level_set s l0"
      by (simp add: L)
    from tree_inv_node [OF inv p] obtain pd where pd: "lookup (Store s) p = Some pd"
      and lk: "linked s {} l0 p pd"
      by blast
    define pd' where "pd' = (if p = a then nd' else pd)"
    have pd': "lookup (Store s') p = Some pd'"
      using pd by (simp add: H pd'_def)
    have same: "Level pd' = Level pd" "Parent pd' = Parent pd" "Children pd' = Children pd"
      using pd nd by (auto simp: pd'_def nd'_def)
    have G: "\<exists>bd'. lookup (Store s') b = Some bd' \<and> Parent bd' = Parent bd \<and>
               Children bd' = Children bd" if "lookup (Store s) b = Some bd" for b bd
      using that nd by (auto simp: H nd'_def)
    have lk': "linked s' {} l0 p pd'"
    proof (rule linked_frame [OF lk same])
      fix c cd
      assume "c \<in> level_set s (Suc l0)" "lookup (Store s) c = Some cd" "Parent cd = Some p"
      with G [of c cd]
      show "c \<in> level_set s' (Suc l0) \<and>
            (\<exists>cd'. lookup (Store s') c = Some cd' \<and> Parent cd' = Some p)"
        by (auto simp: L)
    next
      fix r rd
      assume "r \<in> level_set s (l0 - 1)" "lookup (Store s) r = Some rd" "p \<in> set (Children rd)"
      with G [of r rd]
      show "r \<in> level_set s' (l0 - 1) \<and>
            (\<exists>rd'. lookup (Store s') r = Some rd' \<and> p \<in> set (Children rd'))"
        by (auto simp: L)
    qed simp
    have gd: "good s' l0 pd'" if notX: "p \<notin> X'"
    proof (cases "p = a")
      case True
      have e: "sum_list (map (child_count s') (Children nd)) = sum_list (map (child_count s) (Children nd))"
        "sum_list (map (child_wx s') (Children nd)) = sum_list (map (child_wx s) (Children nd))"
        "sum_list (map (child_wy s') (Children nd)) = sum_list (map (child_wy s) (Children nd))"
        by (rule arg_cong [where f = sum_list], simp add: Wn kid)+
      from N1 have nz: "real_of_int N \<noteq> 0"
        by simp
      have "consistent s' nd'"
        unfolding consistent_def using nz
        by (simp add: nd'_def e N_def [symmetric])
      with N1 ne True show ?thesis
        by (simp add: good_def pd'_def nd'_def)
    next
      case False
      with notX X' have "p \<notin> X" and nu: "p \<notin> up s {a}"
        by auto
      from tree_inv_good [OF inv p pd this(1)] have g: "good s l0 pd" .
      have "consistent s' pd = consistent s pd"
      proof (rule consistent_cong)
        fix c assume c: "c \<in> set (Children pd)"
        from tree_inv_child [OF inv p pd c] nu nd have "c \<noteq> a"
          by (auto simp: up_def parent_of_def)
        from Wn [OF this]
        show "child_count s' c = child_count s c \<and> child_wx s' c = child_wx s c \<and>
              child_wy s' c = child_wy s c" .
      qed simp_all
      with g False show ?thesis
        by (simp add: good_def pd'_def)
    qed
    from pd' lk' gd show "\<exists>nd. lookup (Store s') p = Some nd \<and> linked s' {} l0 p nd \<and>
            (p \<notin> X' \<longrightarrow> good s' l0 nd)"
      by blast
  qed
  with L P hc' show ?thesis
    by simp
qed

lemma tree_inv_mono_live:
  assumes "tree_inv s X Y" "\<And>p k. p \<in> level_set s k \<Longrightarrow> p \<in> X \<Longrightarrow> p \<in> X'"
  shows "tree_inv s X' Y"
  using assms unfolding tree_inv_def by blast

lemma merge_step_stale:
  assumes mn: "MergeNodes s (Some a) m B (int l) = Inr (s1, B1)"
    and inv: "tree_inv s (stale s ({a} \<union> A \<union> {m}) (set B)) {}"
    and a: "a \<in> level_set s l" and A: "A \<subseteq> level_set s l" and m: "m \<in> level_set s l"
    and am: "a \<noteq> m" and mA: "m \<notin> A"
    and B: "set B \<subseteq> level_set s (l - 1)"
  shows "tree_inv s1 (stale s1 ({a} \<union> A) (set B1)) {} \<and> 0 < l \<and>
         a \<in> level_set s1 l \<and> A \<subseteq> level_set s1 l \<and>
         set B1 \<subseteq> level_set s1 (l - 1) \<and>
         (sorted_wrt (<) B \<longrightarrow> sorted_wrt (<) B1) \<and>
         (has_children s a \<longrightarrow> has_children s1 a) \<and>
         parent_of s1 a = parent_of s a"
proof -
  define X where "X = stale s ({a} \<union> A \<union> {m}) (set B)"
  have aX: "a \<in> X"
    by (simp add: X_def stale_def)
  from MergeNodes_tree [OF mn inv [folded X_def] a m am aX] obtain q qm where
    l0: "0 < l" and pa: "parent_of s a = Some q" and pm: "parent_of s m = Some qm" and
    B1: "B1 = (if qm \<noteq> q then set_insert qm B else B)" and
    T: "tree_inv s1 (X \<union> {q, qm} \<union> up s {q, qm}) {}" and
    L: "\<And>k. level_set s1 k = (if k = l then level_set s k - {m} else level_set s k)" and
    P: "\<And>p. p \<noteq> m \<Longrightarrow> p \<notin> level_set s (Suc l) \<Longrightarrow> parent_of s1 p = parent_of s p" and
    hc: "has_children s a \<longrightarrow> has_children s1 a"
    by blast
  note inv' = inv [folded X_def]
  define A' where "A' = {a} \<union> A"
  have A'l: "A' \<subseteq> level_set s l"
    using a A by (simp add: A'_def)
  have par: "parent_of s1 z = parent_of s z"
    if "z \<in> level_set s l \<or> z \<in> level_set s (l - 1)" "z \<noteq> m" for z
  proof -
    from that(1) have "z \<notin> level_set s (Suc l)"
      using level_unique [OF inv', of z l "Suc l"] level_unique [OF inv', of z "l - 1" "Suc l"]
      by auto
    from P [OF that(2) this] show ?thesis .
  qed
  define U where "U = up s A'"
  have qU: "q \<in> U"
    using pa by (auto simp: U_def up_def A'_def)
  have Ul: "U \<subseteq> level_set s (l - 1)"
    using up_level [OF inv' A'l] by (auto simp: U_def)
  have qml: "qm \<in> level_set s (l - 1)"
    using parent_has_children [OF inv' m pm] by simp
  have upA: "up s ({a} \<union> A \<union> {m}) = U \<union> {qm}"
    using pm by (auto simp: U_def up_def A'_def)
  have setB1: "set B1 = set B \<union> (if qm \<noteq> q then {qm} else {})"
    by (simp add: B1)
  define W where "W = U \<union> set B1"
  have W: "up s ({a} \<union> A \<union> {m}) \<union> set B = W"
    unfolding upA W_def setB1 using qU by (auto split: if_splits)
  have Wl: "W \<subseteq> level_set s (l - 1)"
    using Ul B qml by (auto simp: W_def setB1 split: if_splits)
  have Xeq: "X = ({a} \<union> A \<union> {m}) \<union> W \<union> up s W"
    unfolding X_def stale_def W ..
  have qW: "q \<in> W" "qm \<in> W"
    using qU by (auto simp: W_def setB1)
  then have "up s {q, qm} \<subseteq> up s W"
    by (intro up_mono) simp
  with qW have T': "tree_inv s1 X {}"
    using tree_inv_mono [OF T, of X] by (auto simp: Xeq)
  have mW: "z \<noteq> m" if "z \<in> W" for z
  proof -
    from that Wl have "z \<in> level_set s (l - 1)"
      by auto
    from level_ne [OF inv' this m] l0 show ?thesis
      by simp
  qed
  have mA': "z \<noteq> m" if "z \<in> A'" for z
    using that am mA by (auto simp: A'_def)
  have u1: "up s1 A' = U"
    unfolding U_def using A'l mA' by (intro up_eq par) auto
  have u2: "up s1 W = up s W"
    using Wl mW by (intro up_eq par) auto
  have st: "stale s1 A' (set B1) = A' \<union> W \<union> up s W"
    by (simp add: stale_def u1 W_def [symmetric] u2)
  have dead: "m \<notin> level_set s1 k" for k
    using level_unique [OF inv' m, of k] by (auto simp: L)
  have "tree_inv s1 (stale s1 A' (set B1)) {}"
  proof (rule tree_inv_mono_live [OF T'])
    fix p k assume "p \<in> level_set s1 k" "p \<in> X"
    with dead [of k] have "p \<noteq> m" "p \<in> X"
      by auto
    then show "p \<in> stale s1 A' (set B1)"
      unfolding st Xeq by (auto simp: A'_def)
  qed
  moreover have "a \<in> level_set s1 l" "A \<subseteq> level_set s1 l"
    using a A am mA by (auto simp: L)
  moreover have "set B1 \<subseteq> level_set s1 (l - 1)"
    using B qml l0 by (auto simp: L setB1 split: if_splits)
  moreover have "sorted_wrt (<) B \<longrightarrow> sorted_wrt (<) B1"
    by (simp add: B1 sorted_set_insert)
  moreover have "parent_of s1 a = parent_of s a"
    using par [of a] a am by simp
  ultimately show ?thesis
    using l0 hc by (simp add: A'_def)
qed

lemma merge_queued_tree:
  assumes "merge_queued s (Some a) M B (int l) = Inr (s', B')"
    and "tree_inv s (stale s ({a} \<union> set M) (set B)) {}"
    and "a \<in> level_set s l" and "set M \<subseteq> level_set s l" and "distinct M"
    and "set B \<subseteq> level_set s (l - 1)" and "sorted_wrt (<) B" and "l = 0 \<longrightarrow> B = []"
    and "has_children s a"
  shows "tree_inv s' (stale s' {a} (set B')) {} \<and> a \<in> level_set s' l \<and>
         set B' \<subseteq> level_set s' (l - 1) \<and> sorted_wrt (<) B' \<and> (l = 0 \<longrightarrow> B' = []) \<and>
         has_children s' a"
  using assms
proof (induction M arbitrary: s B)
  case Nil
  then show ?case by simp
next
  case (Cons m rest)
  show ?case
  proof (cases "a = m")
    case True
    with Cons.prems(1) have mq: "merge_queued s (Some a) rest B (int l) = Inr (s', B')"
      by simp
    from True have "{a} \<union> set (m # rest) = {a} \<union> set rest"
      by auto
    with Cons.prems(2) have inv: "tree_inv s (stale s ({a} \<union> set rest) (set B)) {}"
      by simp
    from Cons.IH [OF mq inv Cons.prems(3) _ _ Cons.prems(6,7,8,9)] Cons.prems(4,5)
    show ?thesis
      by simp
  next
    case False
    with Cons.prems(1) obtain s1 B1 where
      mn: "MergeNodes s (Some a) m B (int l) = Inr (s1, B1)" and
      mq: "merge_queued s1 (Some a) rest B1 (int l) = Inr (s', B')"
      by (auto simp: andThen_Inr_iff)
    have e: "{a} \<union> set (m # rest) = {a} \<union> set rest \<union> {m}"
      by auto
    from Cons.prems(4,5) have r: "set rest \<subseteq> level_set s l" "m \<in> level_set s l" "m \<notin> set rest"
      "distinct rest"
      by auto
    from merge_step_stale [OF mn Cons.prems(2) [unfolded e] Cons.prems(3) r(1,2) False r(3)
        Cons.prems(6)] Cons.prems(7,9)
    have 1: "tree_inv s1 (stale s1 ({a} \<union> set rest) (set B1)) {}" "0 < l"
      "a \<in> level_set s1 l" "set rest \<subseteq> level_set s1 l" "set B1 \<subseteq> level_set s1 (l - 1)"
      "sorted_wrt (<) B1" "has_children s1 a"
      by simp_all
    from 1(2) have "l = 0 \<longrightarrow> B1 = []"
      by simp
    from Cons.IH [OF mq 1(1,3,4) r(4) 1(5,6) this 1(7)] show ?thesis .
  qed
qed

lemma scan_closest_neq:
  "scan_closest s node xs (c0, d0) = Inr (c, d) \<Longrightarrow> c0 \<noteq> node \<Longrightarrow> c \<noteq> node"
  by (induction xs arbitrary: c0 d0) (auto split: sum.splits if_splits)

lemma FindClosestNode_level:
  assumes "FindClosestNode s (Some a) (int l) thr = Inr (Some c)"
  shows "c \<in> level_set s l \<and> c \<noteq> a"
proof -
  from assms obtain nodeSet d where
    sc: "scan_closest s (Some a) nodeSet (None, gcsThreshold2 (int l) thr) = Inr (Some c, d)"
    by (auto simp: FindClosestNode_def split: sum.splits)
  from scan_closest_neq [OF sc] FindClosestNode_mem [OF assms] show ?thesis
    by (simp add: level_set_def)
qed

lemma sorted_lt_distinct: "sorted_wrt (<) (xs :: nat list) \<Longrightarrow> distinct xs"
  by (induction xs) auto

lemma parent_of_deref: "deref s (Some a) = Inr nd \<Longrightarrow> parent_of s a = Parent nd"
  by (simp add: deref_Some_iff parent_of_def)

lemma closest_step_tree:
  assumes fc: "FindClosestNode s2 (Some a) (int l) thr = Inr closest"
    and mc: "(case closest of None \<Rightarrow> Inr (s2, ptm)
              | Some c \<Rightarrow> MergeNodes s2 (Some a) c ptm (int l)) = Inr (s3, ptm1)"
    and inv: "tree_inv s2 ((up s2 {a} \<union> set ptm) \<union> up s2 (up s2 {a} \<union> set ptm)) {}"
    and a: "a \<in> level_set s2 l" and B: "set ptm \<subseteq> level_set s2 (l - 1)"
    and srt: "sorted_wrt (<) ptm" and B0: "l = 0 \<longrightarrow> ptm = []"
  shows "tree_inv s3 ((up s3 {a} \<union> set ptm1) \<union> up s3 (up s3 {a} \<union> set ptm1)) {} \<and>
         a \<in> level_set s3 l \<and> set ptm1 \<subseteq> level_set s3 (l - 1) \<and>
         sorted_wrt (<) ptm1 \<and> (l = 0 \<longrightarrow> ptm1 = [])"
proof (cases closest)
  case None
  with mc assms show ?thesis
    by simp
next
  case (Some c)
  with mc have mn: "MergeNodes s2 (Some a) c ptm (int l) = Inr (s3, ptm1)"
    by simp
  from FindClosestNode_level [OF fc [unfolded Some]] have c: "c \<in> level_set s2 l" and ca: "a \<noteq> c"
    by auto
  define W where "W = up s2 {a} \<union> set ptm"
  define X where "X = W \<union> up s2 W"
  note inv' = inv [folded W_def, folded X_def]
  have Al: "{a} \<subseteq> level_set s2 l"
    using a by simp
  have B0': "l = 0 \<longrightarrow> set ptm = {}"
    using B0 by simp
  have below: "\<exists>j < l. p \<in> level_set s2 j" if "p \<in> X" for p
    using stale_below [OF inv' Al B B0', of p] that by (simp add: X_def W_def)
  have cX: "c \<notin> X"
  proof
    assume "c \<in> X"
    from below [OF this] obtain j where "j < l" "c \<in> level_set s2 j"
      by blast
    with level_unique [OF inv' this(2) c] show False
      by simp
  qed
  then have cXa: "c \<in> X \<Longrightarrow> a \<in> X"
    by simp
  from MergeNodes_tree [OF mn inv' a c ca cXa] obtain q qm where
    l0: "0 < l" and pa: "parent_of s2 a = Some q" and pm: "parent_of s2 c = Some qm" and
    B1: "ptm1 = (if qm \<noteq> q then set_insert qm ptm else ptm)" and
    T: "tree_inv s3 (X \<union> {q, qm} \<union> up s2 {q, qm}) {}" and
    L: "\<And>k. level_set s3 k = (if k = l then level_set s2 k - {c} else level_set s2 k)" and
    P: "\<And>p. p \<noteq> c \<Longrightarrow> p \<notin> level_set s2 (Suc l) \<Longrightarrow> parent_of s3 p = parent_of s2 p"
    by blast
  have par: "parent_of s3 z = parent_of s2 z"
    if "z \<in> level_set s2 l \<or> z \<in> level_set s2 (l - 1)" "z \<noteq> c" for z
  proof -
    from that(1) have "z \<notin> level_set s2 (Suc l)"
      using level_unique [OF inv', of z l "Suc l"] level_unique [OF inv', of z "l - 1" "Suc l"]
      by auto
    from P [OF that(2) this] show ?thesis .
  qed
  have qml: "qm \<in> level_set s2 (l - 1)"
    using parent_has_children [OF inv' c pm] by simp
  have ql: "q \<in> level_set s2 (l - 1)"
    using parent_has_children [OF inv' a pa] by simp
  have upa: "up s2 {a} = {q}"
    using pa by (auto simp: up_def)
  have upa3: "up s3 {a} = {q}"
    using pa par [of a] a ca by (auto simp: up_def)
  have setB1: "set ptm1 = set ptm \<union> (if qm \<noteq> q then {qm} else {})"
    by (simp add: B1)
  define W3 where "W3 = up s3 {a} \<union> set ptm1"
  have W3: "W3 = W \<union> {q, qm}"
    unfolding W3_def W_def upa upa3 setB1 by auto
  have W3l: "W3 \<subseteq> level_set s2 (l - 1)"
    unfolding W3 W_def upa using B ql qml by auto
  have W3c: "z \<noteq> c" if "z \<in> W3" for z
  proof -
    from that W3l have "z \<in> level_set s2 (l - 1)"
      by auto
    from level_ne [OF inv' this c] l0 show ?thesis
      by simp
  qed
  have u3: "up s3 W3 = up s2 W3"
    using W3l W3c by (intro up_eq par) auto
  have e: "up s3 W3 = up s2 W \<union> up s2 {q, qm}"
    unfolding u3 unfolding W3 up_Un ..
  have "X \<union> {q, qm} \<union> up s2 {q, qm} = W3 \<union> up s3 W3"
    unfolding e unfolding W3 X_def by auto
  with T have "tree_inv s3 (W3 \<union> up s3 W3) {}"
    by simp
  moreover have "a \<in> level_set s3 l"
    using a ca by (simp add: L)
  moreover have "set ptm1 \<subseteq> level_set s3 (l - 1)"
    using B qml l0 by (auto simp: L setB1 split: if_splits)
  moreover have "sorted_wrt (<) ptm1"
    using srt by (simp add: B1 sorted_set_insert)
  ultimately show ?thesis
    using l0 by (simp add: W3_def)
qed

lemma refine_tree:
  assumes "refine n thr node M s = Inr s'"
    and "n = 0 \<longrightarrow> tree_inv s {} {}"
    and "\<forall>l. n = Suc l \<longrightarrow>
           (\<exists>a. node = Some a \<and> a \<in> level_set s l \<and> has_children s a \<and>
                set M \<subseteq> level_set s l \<and> sorted_wrt (<) M \<and>
                tree_inv s (stale s ({a} \<union> set M) {}) {})"
  shows "tree_inv s' {} {}"
  using assms
proof (induction n arbitrary: node M s)
  case 0
  then show ?case by simp
next
  case (Suc l)
  from Suc.prems(3) obtain a where node: "node = Some a" and a: "a \<in> level_set s l"
    and hc: "has_children s a" and M: "set M \<subseteq> level_set s l" and srt: "sorted_wrt (<) M"
    and inv: "tree_inv s (stale s ({a} \<union> set M) (set [])) {}"
    by auto
  from refine_Suc_D [OF Suc.prems(1)] obtain s1 ptm s2 closest s3 ptm1 nd where
    mq: "merge_queued s (Some a) M [] (int l) = Inr (s1, ptm)" and
    rc: "recompute s1 (Some a) = Inr s2" and
    fc: "FindClosestNode s2 (Some a) (int l) thr = Inr closest" and
    mc: "(case closest of None \<Rightarrow> Inr (s2, ptm)
          | Some c \<Rightarrow> MergeNodes s2 (Some a) c ptm (int l)) = Inr (s3, ptm1)" and
    nd: "deref s3 (Some a) = Inr nd" and
    rf: "refine l thr (Parent nd) ptm1 s3 = Inr s'"
    unfolding node by (elim exE conjE) (rule that)
  from merge_queued_tree [OF mq inv a M sorted_lt_distinct [OF srt] _ _ _ hc]
  have i1: "tree_inv s1 (stale s1 {a} (set ptm)) {}" and a1: "a \<in> level_set s1 l"
    and B1: "set ptm \<subseteq> level_set s1 (l - 1)" and srt1: "sorted_wrt (<) ptm"
    and B01: "l = 0 \<longrightarrow> ptm = []" and hc1: "has_children s1 a"
    by simp_all
  define W where "W = up s1 {a} \<union> set ptm"
  have Al: "{a} \<subseteq> level_set s1 l"
    using a1 by simp
  have B01': "l = 0 \<longrightarrow> set ptm = {}"
    using B01 by simp
  have kg: "\<forall>c \<in> level_set s1 (Suc l). c \<notin> stale s1 {a} (set ptm)"
    using stale_above [OF i1 Al B1 B01'] by blast
  have aW: "a \<notin> W \<union> up s1 W"
  proof
    assume "a \<in> W \<union> up s1 W"
    from stale_below [OF i1 Al B1 B01' this [unfolded W_def]] obtain j where
      "j < l" "a \<in> level_set s1 j"
      by blast
    with level_unique [OF i1 this(2) a1] show False
      by simp
  qed
  have x1: "stale s1 {a} (set ptm) - {a} \<subseteq> W \<union> up s1 W"
    by (auto simp: stale_def W_def)
  have x2: "up s1 {a} \<subseteq> W \<union> up s1 W"
    by (auto simp: W_def)
  from recompute_tree [OF rc i1 a1 hc1 kg x1 x2] have
    i2: "tree_inv s2 (W \<union> up s1 W) {}" and L2: "\<And>k. level_set s2 k = level_set s1 k"
    and P2: "\<And>p. parent_of s2 p = parent_of s1 p"
    by simp_all
  have u2: "up s2 Z = up s1 Z" for Z
    by (rule up_eq) (rule P2)
  have i2': "tree_inv s2 ((up s2 {a} \<union> set ptm) \<union> up s2 (up s2 {a} \<union> set ptm)) {}"
    using i2 by (simp add: u2 W_def)
  from closest_step_tree [OF fc mc i2' _ _ srt1 B01] a1 B1
  have i3: "tree_inv s3 ((up s3 {a} \<union> set ptm1) \<union> up s3 (up s3 {a} \<union> set ptm1)) {}"
    and a3: "a \<in> level_set s3 l" and B3: "set ptm1 \<subseteq> level_set s3 (l - 1)"
    and srt3: "sorted_wrt (<) ptm1" and B03: "l = 0 \<longrightarrow> ptm1 = []"
    by (simp_all add: L2)
  have pn: "parent_of s3 a = Parent nd"
    using nd by (rule parent_of_deref)
  show ?case
  proof (rule Suc.IH [OF rf])
    show "l = 0 \<longrightarrow> tree_inv s3 {} {}"
    proof
      assume l: "l = 0"
      with a3 have "up s3 {a} = {}"
        by (intro up_level0 [OF i3]) simp
      moreover have "up s3 {} = {}"
        by (simp add: up_def)
      ultimately show "tree_inv s3 {} {}"
        using i3 B03 l by simp
    qed
  next
    show "\<forall>l'. l = Suc l' \<longrightarrow>
           (\<exists>a'. Parent nd = Some a' \<and> a' \<in> level_set s3 l' \<and> has_children s3 a' \<and>
                set ptm1 \<subseteq> level_set s3 l' \<and> sorted_wrt (<) ptm1 \<and>
                tree_inv s3 (stale s3 ({a'} \<union> set ptm1) {}) {})"
    proof (intro allI impI)
      fix l' assume l: "l = Suc l'"
      from parent_of_Some [OF i3 a3 [unfolded l]] obtain q where q: "parent_of s3 a = Some q"
        by blast
      from parent_has_children [OF i3 a3 q] have hq: "has_children s3 q"
        and ql: "q \<in> level_set s3 l'"
        by (simp_all add: l)
      have upa: "up s3 {a} = {q}"
        using q by (auto simp: up_def)
      have "(up s3 {a} \<union> set ptm1) \<union> up s3 (up s3 {a} \<union> set ptm1)
              \<subseteq> stale s3 ({q} \<union> set ptm1) {}"
        unfolding upa by (auto simp: stale_def)
      from tree_inv_mono [OF i3 this] hq ql q B3 srt3
      show "\<exists>a'. Parent nd = Some a' \<and> a' \<in> level_set s3 l' \<and> has_children s3 a' \<and>
                set ptm1 \<subseteq> level_set s3 l' \<and> sorted_wrt (<) ptm1 \<and>
                tree_inv s3 (stale s3 ({a'} \<union> set ptm1) {}) {}"
        by (simp add: pn [symmetric] l)
    qed
  qed
qed

lemma climb_copy_effect:
  assumes "climb_copy s x (int l) = Inr (s', y)"
  shows "\<exists>xd. lookup (Store s) x = Some xd \<and> y = length (Store s) \<and> l < length (NodeTable s) \<and>
     NodeTable s' = (NodeTable s)[l := set_insert y (NodeTable s ! l)] \<and>
     lookup (Store s') = (lookup (Store s))
        (y \<mapsto> \<lparr>NodeId = NumberOfNodes s, Level = int l, gcsCoords = gcsCoords xd,
                Parent = None, Children = [x],
                NumberOfMarkers = NumberOfMarkers xd, MarkerId = MarkerId xd\<rparr>,
         x \<mapsto> xd\<lparr>Parent := Some y\<rparr>)"
proof -
  from assms obtain xd where xd: "lookup (Store s) x = Some xd"
    by (auto simp: climb_copy_def andThen_Inr_iff deref_Some_iff)
  then have xl: "x < length (Store s)"
    by (rule lookup_Some_less)
  from assms xd xl show ?thesis
    by (auto simp: climb_copy_def new_node_def Let_def andThen_Inr_iff deref_Some_iff
          table_at_Inr_iff modify_Inr_iff assign_def table_put_def lookup_update lookup_append
          fun_eq_iff)
qed

lemma climb_merge_effect:
  assumes "climb_merge s x c = Inr s'" and xc: "x \<noteq> c"
  shows "\<exists>cd xd. lookup (Store s) c = Some cd \<and> lookup (Store s) x = Some xd \<and>
     NodeTable s' = NodeTable s \<and>
     lookup (Store s') = (lookup (Store s))
        (c \<mapsto> cd\<lparr>gcsCoords :=
                   ((fst (gcsCoords cd) * real_of_int (NumberOfMarkers cd) + fst (gcsCoords xd))
                      / (1 + real_of_int (NumberOfMarkers cd)),
                    (snd (gcsCoords cd) * real_of_int (NumberOfMarkers cd) + snd (gcsCoords xd))
                      / (1 + real_of_int (NumberOfMarkers cd))),
                 NumberOfMarkers := NumberOfMarkers cd + 1, MarkerId := - 1,
                 Children := set_insert x (Children cd)\<rparr>,
         x \<mapsto> xd\<lparr>Parent := Some c\<rparr>)"
proof -
  from assms(1) obtain cd xd s1 where
    cd: "lookup (Store s) c = Some cd" and xd: "lookup (Store s) x = Some xd" and
    m1: "modify s (Some c)
           (\<lambda>cd'. cd'\<lparr>gcsCoords :=
                   ((fst (gcsCoords cd) * real_of_int (NumberOfMarkers cd) + fst (gcsCoords xd))
                      / (1 + real_of_int (NumberOfMarkers cd)),
                    (snd (gcsCoords cd) * real_of_int (NumberOfMarkers cd) + snd (gcsCoords xd))
                      / (1 + real_of_int (NumberOfMarkers cd))),
                 NumberOfMarkers := NumberOfMarkers cd' + 1, MarkerId := - 1,
                 Children := set_insert x (Children cd')\<rparr>) = Inr s1" and
    m2: "modify s1 (Some x) (\<lambda>nd. nd\<lparr>Parent := Some c\<rparr>) = Inr s'"
    by (auto simp: climb_merge_def Let_def andThen_Inr_iff deref_Some_iff)
  from modify_heap [OF m1] cd have
    h1: "lookup (Store s1) = (lookup (Store s))
        (c \<mapsto> cd\<lparr>gcsCoords :=
                   ((fst (gcsCoords cd) * real_of_int (NumberOfMarkers cd) + fst (gcsCoords xd))
                      / (1 + real_of_int (NumberOfMarkers cd)),
                    (snd (gcsCoords cd) * real_of_int (NumberOfMarkers cd) + snd (gcsCoords xd))
                      / (1 + real_of_int (NumberOfMarkers cd))),
                 NumberOfMarkers := NumberOfMarkers cd + 1, MarkerId := - 1,
                 Children := set_insert x (Children cd)\<rparr>)"
    and t1: "NodeTable s1 = NodeTable s"
    by auto
  from modify_heap [OF m2] xd xc have
    "lookup (Store s') = (lookup (Store s1))(x \<mapsto> xd\<lparr>Parent := Some c\<rparr>)"
    and "NodeTable s' = NodeTable s1"
    by (auto simp: h1)
  with cd xd t1 show ?thesis
    by (simp add: h1)
qed

lemma orphan_no_child:
  assumes inv: "tree_inv s X Y" and p: "p \<in> level_set s l" and pd: "lookup (Store s) p = Some pd"
    and px: "parent_of s x = None"
  shows "x \<notin> set (Children pd)"
proof
  assume "x \<in> set (Children pd)"
  from tree_inv_child [OF inv p pd this] px show False
    by (auto simp: parent_of_def)
qed

lemma climb_copy_tree:
  assumes cc: "climb_copy s x (int l) = Inr (s', y)" and inv: "tree_inv s {} {x}"
    and x: "x \<in> level_set s (Suc l)" and px: "parent_of s x = None"
  shows "tree_inv s' {} {y} \<and> y \<in> level_set s' l \<and> parent_of s' y = None \<and>
         child_count s' y = child_count s x"
proof -
  define yd where "yd = (\<lambda>xd :: ClusteringNode. \<lparr>NodeId = NumberOfNodes s, Level = int l, gcsCoords = gcsCoords xd,
                Parent = None, Children = [x],
                NumberOfMarkers = NumberOfMarkers xd, MarkerId = MarkerId xd\<rparr>)"
  from climb_copy_effect [OF cc] obtain xd where
    xd: "lookup (Store s) x = Some xd" and y: "y = length (Store s)" and
    ll: "l < length (NodeTable s)" and
    tab: "NodeTable s' = (NodeTable s)[l := set_insert y (NodeTable s ! l)]" and
    H: "lookup (Store s') = (lookup (Store s))(y \<mapsto> yd xd, x \<mapsto> xd\<lparr>Parent := Some y\<rparr>)"
    unfolding yd_def by blast
  from inv have len: "length (NodeTable s) = 20"
    by (simp add: tree_inv_def)
  have yf: "lookup (Store s) y = None"
    by (simp add: y lookup_def)
  with xd have xy: "x \<noteq> y"
    by auto
  have L: "level_set s' k = (if k = l then insert y (level_set s l) else level_set s k)" for k
    unfolding level_set_update [OF ll tab] using ll by (simp add: level_set_def)
  from px xd have pxd: "Parent xd = None"
    by (simp add: parent_of_def)
  have Hx: "lookup (Store s') x = Some (xd\<lparr>Parent := Some y\<rparr>)"
    by (simp add: H)
  have Hy: "lookup (Store s') y = Some (yd xd)"
    using xy by (simp add: H)
  have Ho: "lookup (Store s') b = lookup (Store s) b" if "b \<noteq> x" "b \<noteq> y" for b
    using that by (simp add: H)
  have Wn: "child_count s' c = child_count s c \<and> child_wx s' c = child_wx s c \<and>
            child_wy s' c = child_wy s c" if "c \<noteq> y" for c
    using that xd by (simp add: child_count_def child_wx_def child_wy_def H)
  have live: "b \<noteq> y" if "lookup (Store s) b = Some bd" for b bd
    using that yf by auto
  have "tree_inv s' {} {y}"
    unfolding tree_inv_def
  proof (intro conjI allI impI ballI)
    show "length (NodeTable s') = 20"
      using len by (simp add: tab)
  next
    fix l0 p
    assume l0: "l0 < 20" and ps: "p \<in> level_set s' l0"
    show "\<exists>nd. lookup (Store s') p = Some nd \<and> linked s' {y} l0 p nd \<and>
            (p \<notin> {} \<longrightarrow> good s' l0 nd)"
    proof (cases "p = y")
      case True
      have "y \<notin> level_set s l0"
        using tree_inv_node [OF inv, of y l0] yf by auto
      with ps True have ll0: "l0 = l"
        by (auto simp: L split: if_splits)
      from tree_inv_good [OF inv x xd] have gx: "good s (Suc l) xd"
        by simp
      have "linked s' {y} l y (yd xd)"
        using x Hx by (simp add: linked_def yd_def L)
      moreover have "good s' l (yd xd)"
        using gx Hx
        by (simp add: good_def consistent_def yd_def child_count_def child_wx_def child_wy_def)
      ultimately show ?thesis
        using Hy True ll0 by simp
    next
      case False
      with ps have p: "p \<in> level_set s l0"
        by (auto simp: L split: if_splits)
      from tree_inv_node [OF inv p] obtain pd where pd: "lookup (Store s) p = Some pd"
        and lk: "linked s {x} l0 p pd" and g: "good s l0 pd"
        by blast
      have nochild: "x \<notin> set (Children pd)"
        by (rule orphan_no_child [OF inv p pd px])
      have kids: "c \<noteq> x \<and> c \<noteq> y" if "c \<in> set (Children pd)" for c
        using that nochild tree_inv_child [OF inv p pd that] live by auto
      show ?thesis
      proof (cases "p = x")
        case True
        with pd xd have pdx: "pd = xd"
          by simp
        from level_unique [OF inv p] x True have ll0: "l0 = Suc l"
          by simp
        have "linked s' {y} (Suc l) x (xd\<lparr>Parent := Some y\<rparr>)"
          unfolding linked_def
        proof (intro conjI ballI)
          show "Level (xd\<lparr>Parent := Some y\<rparr>) = int (Suc l)"
            "distinct (Children (xd\<lparr>Parent := Some y\<rparr>))"
            using tree_inv_linked [OF inv x xd] by simp_all
        next
          fix c assume c: "c \<in> set (Children (xd\<lparr>Parent := Some y\<rparr>))"
          then have c': "c \<in> set (Children xd)"
            by simp
          from kids [of c] c' pdx have "c \<noteq> x" "c \<noteq> y"
            by auto
          with tree_inv_child [OF inv x xd c'] Ho [OF this]
          show "c \<in> level_set s' (Suc (Suc l))"
            "\<exists>cd. lookup (Store s') c = Some cd \<and> Parent cd = Some x"
            by (auto simp: L)
        next
          show "case Parent (xd\<lparr>Parent := Some y\<rparr>) of
                  None \<Rightarrow> Suc l = 0 \<or> x \<in> {y}
                | Some q \<Rightarrow> 0 < Suc l \<and> q \<in> level_set s' (Suc l - 1) \<and>
                    (\<exists>qd. lookup (Store s') q = Some qd \<and> x \<in> set (Children qd))"
            using Hy by (simp add: L yd_def)
        qed
        moreover have "consistent s' (xd\<lparr>Parent := Some y\<rparr>) = consistent s xd"
          using kids pdx by (intro consistent_cong Wn) auto
        with g pdx ll0 have "good s' (Suc l) (xd\<lparr>Parent := Some y\<rparr>)"
          by (simp add: good_def)
        ultimately show ?thesis
          using Hx True ll0 by simp
      next
        case False
        with \<open>p \<noteq> y\<close> have pd': "lookup (Store s') p = Some pd"
          using pd by (simp add: Ho)
        have lk': "linked s' {y} l0 p pd"
        proof (rule linked_frame [OF lk refl refl refl])
          fix c cd
          assume c: "c \<in> set (Children pd)" "c \<in> level_set s (Suc l0)"
            "lookup (Store s) c = Some cd" "Parent cd = Some p"
          with kids [OF c(1)] Ho [of c]
          show "c \<in> level_set s' (Suc l0) \<and>
                (\<exists>cd'. lookup (Store s') c = Some cd' \<and> Parent cd' = Some p)"
            by (auto simp: L)
        next
          fix r rd
          assume r: "r \<in> level_set s (l0 - 1)" "lookup (Store s) r = Some rd"
            "p \<in> set (Children rd)"
          have "\<exists>rd'. lookup (Store s') r = Some rd' \<and> p \<in> set (Children rd')"
          proof (cases "r = x")
            case True
            with r xd Hx show ?thesis
              by auto
          next
            case False
            with r live [OF r(2)] Ho [of r] show ?thesis
              by auto
          qed
          with r(1) show "r \<in> level_set s' (l0 - 1) \<and>
                (\<exists>rd'. lookup (Store s') r = Some rd' \<and> p \<in> set (Children rd'))"
            by (auto simp: L)
        next
          assume "p \<in> {x}"
          with False show "l0 = 0 \<or> p \<in> {y}"
            by simp
        qed
        have "consistent s' pd = consistent s pd"
          using kids by (intro consistent_cong Wn) auto
        with g have "good s' l0 pd"
          by (simp add: good_def)
        with pd' lk' show ?thesis
          by simp
      qed
    qed
  qed
  moreover have "y \<in> level_set s' l"
    by (simp add: L)
  moreover have "parent_of s' y = None"
    by (simp add: parent_of_def Hy yd_def)
  moreover have "child_count s' y = child_count s x"
    using xd by (simp add: child_count_def Hy yd_def)
  ultimately show ?thesis
    by simp
qed

lemma climb_merge_tree:
  assumes cm: "climb_merge s x c = Inr s'" and inv: "tree_inv s {} {x}"
    and x: "x \<in> level_set s (Suc l)" and px: "parent_of s x = None"
    and n1: "child_count s x = 1" and c: "c \<in> level_set s l"
  shows "tree_inv s' (up s' {c}) {} \<and> c \<in> level_set s' l"
proof -
  from level_ne [OF inv x c] have xc: "x \<noteq> c"
    by simp
  define cd' where "cd' = (\<lambda>(cd :: ClusteringNode) (xd :: ClusteringNode).
       cd\<lparr>gcsCoords :=
                   ((fst (gcsCoords cd) * real_of_int (NumberOfMarkers cd) + fst (gcsCoords xd))
                      / (1 + real_of_int (NumberOfMarkers cd)),
                    (snd (gcsCoords cd) * real_of_int (NumberOfMarkers cd) + snd (gcsCoords xd))
                      / (1 + real_of_int (NumberOfMarkers cd))),
                 NumberOfMarkers := NumberOfMarkers cd + 1, MarkerId := - 1,
                 Children := set_insert x (Children cd)\<rparr>)"
  from climb_merge_effect [OF cm xc] obtain cd xd where
    cd: "lookup (Store s) c = Some cd" and xd: "lookup (Store s) x = Some xd" and
    tab: "NodeTable s' = NodeTable s" and
    H: "lookup (Store s') = (lookup (Store s))(c \<mapsto> cd' cd xd, x \<mapsto> xd\<lparr>Parent := Some c\<rparr>)"
    unfolding cd'_def by blast
  have L: "level_set s' k = level_set s k" for k
    by (simp add: level_set_def tab)
  from px xd have pxd: "Parent xd = None"
    by (simp add: parent_of_def)
  from n1 xd have nx: "NumberOfMarkers xd = 1"
    by (simp add: child_count_def)
  have Hx: "lookup (Store s') x = Some (xd\<lparr>Parent := Some c\<rparr>)"
    by (simp add: H)
  have Hc: "lookup (Store s') c = Some (cd' cd xd)"
    using xc by (simp add: H)
  have Ho: "lookup (Store s') b = lookup (Store s) b" if "b \<noteq> x" "b \<noteq> c" for b
    using that by (simp add: H)
  have Wn: "child_count s' b = child_count s b \<and> child_wx s' b = child_wx s b \<and>
            child_wy s' b = child_wy s b" if "b \<noteq> c" for b
    using that xd by (simp add: child_count_def child_wx_def child_wy_def H)
  have upc: "up s' {c} = up s {c}"
    using cd by (auto simp: up_def parent_of_def Hc cd'_def)
  from tree_inv_node [OF inv x] have l19: "l < 19"
    by simp
  have "tree_inv s' (up s {c}) {}"
    unfolding tree_inv_def
  proof (intro conjI allI impI ballI)
    show "length (NodeTable s') = 20"
      using inv by (simp add: tab tree_inv_def)
  next
    fix l0 p
    assume l0: "l0 < 20" and ps: "p \<in> level_set s' l0"
    then have p: "p \<in> level_set s l0"
      by (simp add: L)
    from tree_inv_node [OF inv p] obtain pd where pd: "lookup (Store s) p = Some pd"
      and lk: "linked s {x} l0 p pd" and g: "good s l0 pd"
      by blast
    have nochild: "x \<notin> set (Children pd)"
      by (rule orphan_no_child [OF inv p pd px])
    show "\<exists>nd. lookup (Store s') p = Some nd \<and> linked s' {} l0 p nd \<and>
            (p \<notin> up s {c} \<longrightarrow> good s' l0 nd)"
    proof (cases "p = x")
      case True
      with pd xd have pdx: "pd = xd"
        by simp
      from level_unique [OF inv p] x True have ll0: "l0 = Suc l"
        by simp
      have kids: "b \<noteq> x \<and> b \<noteq> c" if "b \<in> set (Children xd)" for b
        using tree_inv_child [OF inv x xd that] level_ne [OF inv _ x, of b "Suc (Suc l)"]
          level_ne [OF inv _ c, of b "Suc (Suc l)"]
        by auto
      have "linked s' {} (Suc l) x (xd\<lparr>Parent := Some c\<rparr>)"
        unfolding linked_def
      proof (intro conjI ballI)
        show "Level (xd\<lparr>Parent := Some c\<rparr>) = int (Suc l)"
          "distinct (Children (xd\<lparr>Parent := Some c\<rparr>))"
          using tree_inv_linked [OF inv x xd] by simp_all
      next
        fix b assume "b \<in> set (Children (xd\<lparr>Parent := Some c\<rparr>))"
        then have b: "b \<in> set (Children xd)"
          by simp
        from kids [OF b] have "b \<noteq> x" "b \<noteq> c"
          by auto
        with tree_inv_child [OF inv x xd b] Ho [OF this]
        show "b \<in> level_set s' (Suc (Suc l))"
          "\<exists>bd. lookup (Store s') b = Some bd \<and> Parent bd = Some x"
          by (auto simp: L)
      next
        show "case Parent (xd\<lparr>Parent := Some c\<rparr>) of
                None \<Rightarrow> Suc l = 0 \<or> x \<in> {}
              | Some q \<Rightarrow> 0 < Suc l \<and> q \<in> level_set s' (Suc l - 1) \<and>
                  (\<exists>qd. lookup (Store s') q = Some qd \<and> x \<in> set (Children qd))"
          using Hc c by (simp add: L cd'_def)
      qed
      moreover have "consistent s' (xd\<lparr>Parent := Some c\<rparr>) = consistent s xd"
        using kids by (intro consistent_cong Wn) auto
      with g pdx ll0 have "good s' (Suc l) (xd\<lparr>Parent := Some c\<rparr>)"
        by (simp add: good_def)
      ultimately show ?thesis
        using Hx True ll0 by simp
    next
      case px': False
      show ?thesis
      proof (cases "p = c")
        case True
        with pd cd have pdc: "pd = cd"
          by simp
        from level_unique [OF inv p] c True have ll0: "l0 = l"
          by simp
        from nochild pdc have xn: "x \<notin> set (Children cd)"
          by simp
        have kids: "b \<noteq> x \<and> b \<noteq> c" if "b \<in> set (Children cd)" for b
          using tree_inv_child [OF inv c cd that] level_ne [OF inv _ c, of b "Suc l"] that xn
          by auto
        from g pdc ll0 l19 have gc: "1 \<le> NumberOfMarkers cd" "Children cd \<noteq> []"
          "consistent s cd"
          by (simp_all add: good_def)
        have "linked s' {} l c (cd' cd xd)"
          unfolding linked_def
        proof (intro conjI ballI)
          show "Level (cd' cd xd) = int l" "distinct (Children (cd' cd xd))"
            using tree_inv_linked [OF inv c cd] xn
            by (simp_all add: cd'_def distinct_set_insert)
        next
          fix b assume "b \<in> set (Children (cd' cd xd))"
          then consider "b = x" | "b \<in> set (Children cd)"
            by (auto simp: cd'_def)
          then have "b \<in> level_set s' (Suc l) \<and>
            (\<exists>bd. lookup (Store s') b = Some bd \<and> Parent bd = Some c)"
          proof cases
            case 1
            with x Hx show ?thesis
              by (simp add: L)
          next
            case 2
            from kids [OF 2] have "b \<noteq> x" "b \<noteq> c"
              by auto
            with tree_inv_child [OF inv c cd 2] Ho [OF this]
            show ?thesis
              by (auto simp: L)
          qed
          then show "b \<in> level_set s' (Suc l)"
            "\<exists>bd. lookup (Store s') b = Some bd \<and> Parent bd = Some c"
            by simp_all
        next
          show "case Parent (cd' cd xd) of
                  None \<Rightarrow> l = 0 \<or> c \<in> {}
                | Some q \<Rightarrow> 0 < l \<and> q \<in> level_set s' (l - 1) \<and>
                    (\<exists>qd. lookup (Store s') q = Some qd \<and> c \<in> set (Children qd))"
          proof (cases "Parent cd")
            case None
            with lk pdc ll0 xc \<open>p = c\<close> show ?thesis
              by (auto simp: linked_def cd'_def)
          next
            case (Some r)
            from tree_inv_parent [OF inv c cd Some] obtain rd where
              r: "0 < l" "r \<in> level_set s (l - 1)" "lookup (Store s) r = Some rd"
              "c \<in> set (Children rd)"
              by blast
            from level_ne [OF inv r(2) c] level_ne [OF inv r(2) x] r(1)
            have "r \<noteq> x" "r \<noteq> c"
              by auto
            from Ho [OF this] r Some show ?thesis
              by (simp add: cd'_def L)
          qed
        qed
        moreover have "good s' l (cd' cd xd)"
        proof -
          have e: "sum_list (map (child_count s') (Children cd)) = sum_list (map (child_count s) (Children cd))"
            "sum_list (map (child_wx s') (Children cd)) = sum_list (map (child_wx s) (Children cd))"
            "sum_list (map (child_wy s') (Children cd)) = sum_list (map (child_wy s) (Children cd))"
            by (rule arg_cong [where f = sum_list], simp add: Wn kids)+
          have wx: "child_count s' x = 1" "child_wx s' x = fst (gcsCoords xd)"
            "child_wy s' x = snd (gcsCoords xd)"
            using nx by (simp_all add: child_count_def child_wx_def child_wy_def Hx)
          from gc(3) [unfolded consistent_def] have
            a1: "NumberOfMarkers cd = sum_list (map (child_count s) (Children cd))" and
            a2: "real_of_int (NumberOfMarkers cd) * fst (gcsCoords cd)
                   = sum_list (map (child_wx s) (Children cd))" and
            a3: "real_of_int (NumberOfMarkers cd) * snd (gcsCoords cd)
                   = sum_list (map (child_wy s) (Children cd))"
            by blast+
          from gc(1) have nz: "1 + real_of_int (NumberOfMarkers cd) \<noteq> 0"
            by linarith
          have c1: "NumberOfMarkers (cd' cd xd) = sum_list (map (child_count s') (Children (cd' cd xd)))"
            by (simp add: cd'_def sum_set_insert [OF xn] e wx a1 [symmetric])
          have "real_of_int (NumberOfMarkers (cd' cd xd)) * fst (gcsCoords (cd' cd xd))
                  = real_of_int (NumberOfMarkers cd) * fst (gcsCoords cd) + fst (gcsCoords xd)"
            using nz by (simp add: cd'_def mult.commute add.commute)
          also have "\<dots> = sum_list (map (child_wx s') (Children (cd' cd xd)))"
            by (simp add: cd'_def sum_set_insert [OF xn] e wx a2)
          finally have c2: "real_of_int (NumberOfMarkers (cd' cd xd)) * fst (gcsCoords (cd' cd xd))
                  = sum_list (map (child_wx s') (Children (cd' cd xd)))" .
          have "real_of_int (NumberOfMarkers (cd' cd xd)) * snd (gcsCoords (cd' cd xd))
                  = real_of_int (NumberOfMarkers cd) * snd (gcsCoords cd) + snd (gcsCoords xd)"
            using nz by (simp add: cd'_def mult.commute add.commute)
          also have "\<dots> = sum_list (map (child_wy s') (Children (cd' cd xd)))"
            by (simp add: cd'_def sum_set_insert [OF xn] e wx a3)
          finally have c3: "real_of_int (NumberOfMarkers (cd' cd xd)) * snd (gcsCoords (cd' cd xd))
                  = sum_list (map (child_wy s') (Children (cd' cd xd)))" .
          from c1 c2 c3 have "consistent s' (cd' cd xd)"
            unfolding consistent_def by (intro conjI)
          moreover have "Children (cd' cd xd) \<noteq> []"
          proof -
            have "set (Children (cd' cd xd)) \<noteq> {}"
              by (simp add: cd'_def)
            then show ?thesis
              by auto
          qed
          moreover have "1 \<le> NumberOfMarkers (cd' cd xd)"
            using gc(1) by (simp add: cd'_def)
          ultimately show ?thesis
            by (simp add: good_def)
        qed
        ultimately show ?thesis
          using Hc True ll0 by simp
      next
        case False
        with px' have pd': "lookup (Store s') p = Some pd"
          using pd by (simp add: Ho)
        have lk': "linked s' {} l0 p pd"
        proof (rule linked_frame [OF lk refl refl refl])
          fix b bd
          assume b: "b \<in> set (Children pd)" "b \<in> level_set s (Suc l0)"
            "lookup (Store s) b = Some bd" "Parent bd = Some p"
          from b(1) nochild have bx: "b \<noteq> x"
            by auto
          have "\<exists>bd'. lookup (Store s') b = Some bd' \<and> Parent bd' = Some p"
          proof (cases "b = c")
            case True
            with b cd Hc show ?thesis
              by (auto simp: cd'_def)
          next
            case False
            with b bx Ho [of b] show ?thesis
              by auto
          qed
          with b(2) show "b \<in> level_set s' (Suc l0) \<and>
                (\<exists>bd'. lookup (Store s') b = Some bd' \<and> Parent bd' = Some p)"
            by (simp add: L)
        next
          fix r rd
          assume r: "r \<in> level_set s (l0 - 1)" "lookup (Store s) r = Some rd"
            "p \<in> set (Children rd)"
          have "\<exists>rd'. lookup (Store s') r = Some rd' \<and> p \<in> set (Children rd')"
          proof (cases "r = x")
            case True
            with r xd Hx show ?thesis
              by auto
          next
            case rx: False
            show ?thesis
            proof (cases "r = c")
              case True
              with r cd Hc show ?thesis
                by (auto simp: cd'_def)
            next
              case False
              with rx r Ho [of r] show ?thesis
                by auto
            qed
          qed
          with r(1) show "r \<in> level_set s' (l0 - 1) \<and>
                (\<exists>rd'. lookup (Store s') r = Some rd' \<and> p \<in> set (Children rd'))"
            by (simp add: L)
        next
          assume "p \<in> {x}"
          with px' show "l0 = 0 \<or> p \<in> {}"
            by simp
        qed
        have gd: "good s' l0 pd" if "p \<notin> up s {c}"
        proof -
          have "b \<noteq> c" if "b \<in> set (Children pd)" for b
          proof
            assume "b = c"
            with tree_inv_child [OF inv p pd that] cd have "parent_of s c = Some p"
              by (auto simp: parent_of_def)
            with \<open>p \<notin> up s {c}\<close> show False
              by (auto simp: up_def)
          qed
          then have "consistent s' pd = consistent s pd"
            by (intro consistent_cong Wn) auto
          with g show ?thesis
            by (simp add: good_def)
        qed
        from pd' lk' gd show ?thesis
          by simp
      qed
    qed
  qed
  then show ?thesis
    using c by (simp add: upc L)
qed

lemma orphan_level0:
  assumes inv: "tree_inv s X {x}" and x: "x \<in> level_set s 0"
  shows "tree_inv s X {}"
  unfolding tree_inv_def
proof (intro conjI allI impI ballI)
  show "length (NodeTable s) = 20"
    using inv by (simp add: tree_inv_def)
next
  fix l p
  assume "l < 20" and p: "p \<in> level_set s l"
  from tree_inv_node [OF inv p] obtain pd where pd: "lookup (Store s) p = Some pd"
    and lk: "linked s {x} l p pd" and g: "p \<notin> X \<longrightarrow> good s l pd"
    by blast
  have "linked s {} l p pd"
  proof (rule linked_frame [OF lk refl refl refl])
    assume "p \<in> {x}"
    with level_unique [OF inv p] x show "l = 0 \<or> p \<in> {}"
      by simp
  qed auto
  with pd g show "\<exists>nd. lookup (Store s) p = Some nd \<and> linked s {} l p nd \<and>
           (p \<notin> X \<longrightarrow> good s l nd)"
    by simp
qed

lemma climb_tree:
  assumes "climb n thr x s = Inr (s', c, lvl)" and "tree_inv s {} {x}" and "x \<in> level_set s n"
    and "parent_of s x = None" and "child_count s x = 1"
  shows "(lvl = - 1 \<and> tree_inv s' {} {}) \<or>
         (0 \<le> lvl \<and> c \<in> level_set s' (nat lvl) \<and> tree_inv s' (up s' {c}) {})"
  using assms
proof (induction n arbitrary: x s)
  case 0
  from 0(1) have "s' = s" "lvl = - 1"
    by simp_all
  with orphan_level0 [OF 0(2,3)] show ?case
    by simp
next
  case (Suc l)
  from Suc.prems(1) obtain closest where
    fc: "FindClosestNode s (Some x) (int l) thr = Inr closest" and
    r: "(case closest of
          Some c \<Rightarrow> andThen (climb_merge s x c) (\<lambda>s1. Inr (s1, c, int l))
        | None \<Rightarrow> andThen (climb_copy s x (int l)) (\<lambda>(s1, newNode).
                    climb l thr newNode s1)) = Inr (s', c, lvl)"
    by (auto simp: andThen_Inr_iff)
  show ?case
  proof (cases closest)
    case None
    with r obtain s1 y where cc: "climb_copy s x (int l) = Inr (s1, y)"
      and cl: "climb l thr y s1 = Inr (s', c, lvl)"
      by (auto simp: andThen_Inr_iff)
    from climb_copy_tree [OF cc Suc.prems(2,3,4)] Suc.prems(5)
    have "tree_inv s1 {} {y}" "y \<in> level_set s1 l" "parent_of s1 y = None"
      "child_count s1 y = 1"
      by simp_all
    from Suc.IH [OF cl this] show ?thesis .
  next
    case (Some c0)
    with r have cm: "climb_merge s x c0 = Inr s'" and e: "c = c0" "lvl = int l"
      by (auto simp: andThen_Inr_iff)
    from FindClosestNode_level [OF fc [unfolded Some]] have c0: "c0 \<in> level_set s l"
      by simp
    from climb_merge_tree [OF cm Suc.prems(2,3,4,5) c0] e show ?thesis
      by simp
  qed
qed

lemma tree_inv_cong:
  assumes "Store s' = Store s" "NodeTable s' = NodeTable s"
  shows "tree_inv s' X Y = tree_inv s X Y"
proof -
  have l: "level_set s' = level_set s"
    by (simp add: level_set_def fun_eq_iff assms)
  have c: "consistent s' = consistent s"
    by (simp add: consistent_def child_count_def child_wx_def child_wy_def fun_eq_iff assms)
  have g: "good s' = good s"
    by (simp add: good_def fun_eq_iff c)
  have k: "linked s' = linked s"
    by (auto simp: linked_def fun_eq_iff l assms split: option.splits)
  show ?thesis
    by (simp add: tree_inv_def l g k assms)
qed

lemma new_leaf_tree:
  assumes inv: "tree_inv s0 {} {}"
    and st: "lookup (Store s2) = (lookup (Store s0))(x \<mapsto> nd)"
    and x: "x = length (Store s0)"
    and tab: "NodeTable s2 = (NodeTable s0)[19 := set_insert x (NodeTable s0 ! 19)]"
    and nd: "Level nd = 19" "Parent nd = None" "Children nd = []" "NumberOfMarkers nd = 1"
  shows "tree_inv s2 {} {x} \<and> x \<in> level_set s2 19 \<and> parent_of s2 x = None \<and>
         child_count s2 x = 1"
proof -
  from inv have len: "length (NodeTable s0) = 20"
    by (simp add: tree_inv_def)
  have xf: "lookup (Store s0) x = None"
    by (simp add: x lookup_def)
  have live: "b \<noteq> x" if "lookup (Store s0) b = Some bd" for b bd
    using that xf by auto
  have l_lt: "19 < length (NodeTable s0)"
    using len by simp
  have L: "level_set s2 k = (if k = 19 then insert x (level_set s0 19) else level_set s0 k)" for k
    unfolding level_set_update [OF l_lt tab] using l_lt by (simp add: level_set_def)
  have Ho: "lookup (Store s2) b = lookup (Store s0) b" if "b \<noteq> x" for b
    using that by (simp add: st)
  have Hx: "lookup (Store s2) x = Some nd"
    by (simp add: st)
  have Wn: "child_count s2 b = child_count s0 b \<and> child_wx s2 b = child_wx s0 b \<and>
            child_wy s2 b = child_wy s0 b" if "b \<noteq> x" for b
    using that by (simp add: child_count_def child_wx_def child_wy_def st)
  have "tree_inv s2 {} {x}"
    unfolding tree_inv_def
  proof (intro conjI allI impI ballI)
    show "length (NodeTable s2) = 20"
      using len by (simp add: tab)
  next
    fix l0 p
    assume l0: "l0 < 20" and ps: "p \<in> level_set s2 l0"
    show "\<exists>nd. lookup (Store s2) p = Some nd \<and> linked s2 {x} l0 p nd \<and>
            (p \<notin> {} \<longrightarrow> good s2 l0 nd)"
    proof (cases "p = x")
      case True
      have "x \<notin> level_set s0 l0"
        using tree_inv_node [OF inv, of x l0] xf by auto
      with ps True have ll0: "l0 = 19"
        by (auto simp: L split: if_splits)
      have "linked s2 {x} 19 x nd" "good s2 19 nd"
        using nd by (simp_all add: linked_def good_def)
      with Hx True ll0 show ?thesis
        by simp
    next
      case False
      with ps have p: "p \<in> level_set s0 l0"
        by (auto simp: L split: if_splits)
      from tree_inv_node [OF inv p] obtain pd where pd: "lookup (Store s0) p = Some pd"
        and lk: "linked s0 {} l0 p pd" and g: "good s0 l0 pd"
        by blast
      have pd': "lookup (Store s2) p = Some pd"
        using pd False by (simp add: Ho)
      have lk': "linked s2 {x} l0 p pd"
      proof (rule linked_frame [OF lk refl refl refl])
        fix b bd
        assume "b \<in> level_set s0 (Suc l0)" "lookup (Store s0) b = Some bd" "Parent bd = Some p"
        with live [of b bd] Ho [of b]
        show "b \<in> level_set s2 (Suc l0) \<and>
              (\<exists>bd'. lookup (Store s2) b = Some bd' \<and> Parent bd' = Some p)"
          by (auto simp: L)
      next
        fix r rd
        assume "r \<in> level_set s0 (l0 - 1)" "lookup (Store s0) r = Some rd"
          "p \<in> set (Children rd)"
        with live [of r rd] Ho [of r]
        show "r \<in> level_set s2 (l0 - 1) \<and>
              (\<exists>rd'. lookup (Store s2) r = Some rd' \<and> p \<in> set (Children rd'))"
          by (auto simp: L)
      qed simp
      have "b \<noteq> x" if "b \<in> set (Children pd)" for b
        using tree_inv_child [OF inv p pd that] live by auto
      then have "consistent s2 pd = consistent s0 pd"
        by (intro consistent_cong Wn) auto
      with g have "good s2 l0 pd"
        by (simp add: good_def)
      with pd' lk' show ?thesis
        by simp
    qed
  qed
  moreover have "x \<in> level_set s2 19"
    by (simp add: L)
  moreover have "parent_of s2 x = None" "child_count s2 x = 1"
    using nd by (simp_all add: parent_of_def child_count_def Hx)
  ultimately show ?thesis
    by simp
qed

lemma cluster_insert_tree:
  assumes ci: "cluster_insert sA x = Inr s'" and inv: "tree_inv s0 {} {}"
    and st: "Store sA = Store s0 @ [Some nd0]" and tabA: "NodeTable sA = NodeTable s0"
    and x: "x = length (Store s0)"
    and nd0: "Parent nd0 = None" "Children nd0 = []" "NumberOfMarkers nd0 = 1"
  shows "tree_inv s' {} {}"
proof -
  from inv have len: "length (NodeTable sA) = 20"
    by (simp add: tree_inv_def tabA)
  from cluster_insert_D [OF ci] obtain s1 nodeSet s3 node1 level1 nd1 thr where
    m: "modify sA (Some x) (\<lambda>nd. nd\<lparr>Level := 19\<rparr>) = Inr s1" and
    ta: "table_at s1 19 = Inr nodeSet" and
    cl: "climb 19 thr x (table_put s1 19 (set_insert x nodeSet)) = Inr (s3, node1, level1)" and
    d: "deref s3 (Some node1) = Inr nd1" and
    rf: "refine (nat level1) thr (Parent nd1) [] s3 = Inr s'"
    unfolding len by (auto simp del: climb.simps refine.simps)
  define s2 where "s2 = table_put s1 19 (set_insert x nodeSet)"
  have hA: "lookup (Store sA) = (lookup (Store s0))(x \<mapsto> nd0)"
    by (auto simp: st x lookup_append fun_eq_iff)
  from modify_heap [OF m] have
    h1: "lookup (Store s1) = (lookup (Store s0))(x \<mapsto> nd0\<lparr>Level := 19\<rparr>)" and
    t1: "NodeTable s1 = NodeTable s0"
    by (auto simp: hA tabA)
  from ta have ns: "nodeSet = NodeTable s0 ! 19"
    by (simp add: table_at_Inr_iff t1)
  have h2: "lookup (Store s2) = (lookup (Store s0))(x \<mapsto> nd0\<lparr>Level := 19\<rparr>)"
    and t2: "NodeTable s2 = (NodeTable s0)[19 := set_insert x (NodeTable s0 ! 19)]"
    by (simp_all add: s2_def table_put_def h1 t1 ns)
  from new_leaf_tree [OF inv h2 x t2] nd0 have
    i2: "tree_inv s2 {} {x}" and x2: "x \<in> level_set s2 19" and
    p2: "parent_of s2 x = None" and c2: "child_count s2 x = 1"
    by simp_all
  from climb_tree [OF cl [folded s2_def] i2 x2 p2 c2]
  show ?thesis
  proof
    assume a: "level1 = - 1 \<and> tree_inv s3 {} {}"
    with rf have "s' = s3"
      by simp
    with a show ?thesis
      by simp
  next
    assume a: "0 \<le> level1 \<and> node1 \<in> level_set s3 (nat level1) \<and> tree_inv s3 (up s3 {node1}) {}"
    then have c: "node1 \<in> level_set s3 (nat level1)" and i3: "tree_inv s3 (up s3 {node1}) {}"
      by simp_all
    show ?thesis
    proof (rule refine_tree [OF rf])
      show "nat level1 = 0 \<longrightarrow> tree_inv s3 {} {}"
      proof
        assume "nat level1 = 0"
        with c have "up s3 {node1} = {}"
          by (intro up_level0 [OF i3]) simp
        with i3 show "tree_inv s3 {} {}"
          by simp
      qed
    next
      show "\<forall>l. nat level1 = Suc l \<longrightarrow>
           (\<exists>a. Parent nd1 = Some a \<and> a \<in> level_set s3 l \<and> has_children s3 a \<and>
                set [] \<subseteq> level_set s3 l \<and> sorted_wrt (<) ([] :: nat list) \<and>
                tree_inv s3 (stale s3 ({a} \<union> set []) {}) {})"
      proof (intro allI impI)
        fix l assume l: "nat level1 = Suc l"
        from parent_of_Some [OF i3 c [unfolded l]] obtain q where q: "parent_of s3 node1 = Some q"
          by blast
        from parent_has_children [OF i3 c q] have hq: "has_children s3 q"
          and ql: "q \<in> level_set s3 l"
          by (simp_all add: l)
        have "up s3 {node1} = {q}"
          using q by (auto simp: up_def)
        then have "up s3 {node1} \<subseteq> stale s3 ({q} \<union> set []) {}"
          by (simp add: stale_def)
        from tree_inv_mono [OF i3 this] hq ql q parent_of_deref [OF d]
        show "\<exists>a. Parent nd1 = Some a \<and> a \<in> level_set s3 l \<and> has_children s3 a \<and>
                set [] \<subseteq> level_set s3 l \<and> sorted_wrt (<) ([] :: nat list) \<and>
                tree_inv s3 (stale s3 ({a} \<union> set []) {}) {}"
          by simp
      qed
    qed
  qed
qed

lemma AddMarker_tree:
  assumes am: "AddMarker lat2y latitude longitude s = Inr (markerId, s')"
    and inv: "tree_inv s {} {}" and cl: "Clustering s"
  shows "tree_inv s' {} {}"
proof -
  from AddMarker_clustering_D [OF am cl] obtain s4 where
    ci: "cluster_insert
         (s\<lparr>InternalsNumberOfMarkers := InternalsNumberOfMarkers s + 1,
            Store := Store s @
              [Some \<lparr>NodeId = NumberOfNodes s, Level = 0,
                     gcsCoords = (longitude, lat2y latitude),
                     Parent = None, Children = [], NumberOfMarkers = 1,
                     MarkerId = InternalsNumberOfMarkers s\<rparr>],
            AllNodes := AllNodes s @ [Some (length (Store s))],
            NumberOfNodes := NumberOfNodes s + 1\<rparr>)
         (length (Store s)) = Inr s4" and
    s': "s' = s4\<lparr>MarkersChanged := True\<rparr>"
    by blast
  define nd0 where "nd0 = \<lparr>NodeId = NumberOfNodes s, Level = 0,
                     gcsCoords = (longitude, lat2y latitude),
                     Parent = None, Children = [], NumberOfMarkers = 1,
                     MarkerId = InternalsNumberOfMarkers s\<rparr>"
  have "tree_inv s4 {} {}"
    by (rule cluster_insert_tree [OF ci inv, where ?nd0.0 = nd0]) (simp_all add: nd0_def)
  then show ?thesis
    unfolding s' by (subst tree_inv_cong [of _ s4]) simp_all
qed

lemma AddMarkers_tree:
  assumes "AddMarkers lat2y markers s = Inr (markerIds, s')"
    and "tree_inv s {} {}" and "leaf_inv s" and "Clustering s"
  shows "tree_inv s' {} {}"
  using assms
proof (induction markers arbitrary: s markerIds)
  case Nil
  then show ?case by simp
next
  case (Cons mk markers)
  obtain latitude longitude where mk: "mk = (latitude, longitude)"
    by (cases mk)
  from Cons.prems(1) obtain markerId s1 rest where
    am: "AddMarker lat2y latitude longitude s = Inr (markerId, s1)" and
    r: "AddMarkers lat2y markers s1 = Inr (rest, s')"
    unfolding mk by (auto simp: andThen_Inr_iff)
  from AddMarker_leaf [OF am Cons.prems(3,4)] have "leaf_inv s1" "Clustering s1"
    by simp_all
  from Cons.IH [OF r AddMarker_tree [OF am Cons.prems(2,4)] this] show ?case .
qed

lemma tree_inv_fresh:
  assumes "NodeTable s0 = replicate 20 []"
  shows "tree_inv s0 {} {}"
  using assms by (simp add: tree_inv_def level_set_def)

lemma consistent_centroid:
  assumes c: "consistent s nd" and n: "1 \<le> NumberOfMarkers nd"
    and live: "\<forall>c \<in> set (Children nd). \<exists>cd. lookup (Store s) c = Some cd"
  shows "\<exists>cds. map (lookup (Store s)) (Children nd) = map Some cds \<and>
           NumberOfMarkers nd = (\<Sum>cd\<leftarrow>cds. NumberOfMarkers cd) \<and>
           gcsCoords nd = weighted_centroid cds"
proof -
  define cds where "cds = map (\<lambda>c. the (lookup (Store s) c)) (Children nd)"
  have m: "map (lookup (Store s)) (Children nd) = map Some cds"
    using live by (auto simp: cds_def)
  have e1: "map (child_count s) (Children nd) = map NumberOfMarkers cds"
    using live by (auto simp: cds_def child_count_def)
  have e2: "map (child_wx s) (Children nd)
              = map (\<lambda>cd. real_of_int (NumberOfMarkers cd) * fst (gcsCoords cd)) cds"
    using live by (auto simp: cds_def child_wx_def)
  have e3: "map (child_wy s) (Children nd)
              = map (\<lambda>cd. real_of_int (NumberOfMarkers cd) * snd (gcsCoords cd)) cds"
    using live by (auto simp: cds_def child_wy_def)
  from c [unfolded consistent_def e1 e2 e3] have
    a1: "NumberOfMarkers nd = (\<Sum>cd\<leftarrow>cds. NumberOfMarkers cd)" and
    a2: "real_of_int (NumberOfMarkers nd) * fst (gcsCoords nd)
           = (\<Sum>cd\<leftarrow>cds. real_of_int (NumberOfMarkers cd) * fst (gcsCoords cd))" and
    a3: "real_of_int (NumberOfMarkers nd) * snd (gcsCoords nd)
           = (\<Sum>cd\<leftarrow>cds. real_of_int (NumberOfMarkers cd) * snd (gcsCoords cd))"
    by blast+
  from n have nz: "real_of_int (NumberOfMarkers nd) \<noteq> 0"
    by simp
  have "fst (gcsCoords nd) = fst (weighted_centroid cds)"
    unfolding weighted_centroid_def a1 [symmetric] a2 [symmetric] using nz by simp
  moreover have "snd (gcsCoords nd) = snd (weighted_centroid cds)"
    unfolding weighted_centroid_def a1 [symmetric] a3 [symmetric] using nz by simp
  ultimately have "gcsCoords nd = weighted_centroid cds"
    by (rule prod_eqI)
  with m a1 show ?thesis
    by blast
qed

text \<open>
  Claim C1. Start from a freshly constructed object with clustering enabled (twenty empty
  levels, an empty store) and add markers; if every \<^verbatim>\<open>AddMarker\<close> call returns, then
  every node in the set of any level is live and holds at least one marker, and if it has
  children, all of them are live, its marker count is the sum of their marker counts and
  its position is their marker-count-weighted centroid. Positions are real numbers here,
  so the equality is exact.
\<close>

theorem children_count_and_centroid:
  assumes "AddMarkers lat2y markers s0 = Inr (markerIds, s)"
    and "Clustering s0" and "NodeTable s0 = replicate 20 []" and "Store s0 = []"
  shows "\<forall>l < length (NodeTable s). \<forall>p \<in> set (NodeTable s ! l).
           \<exists>nd. lookup (Store s) p = Some nd \<and> 1 \<le> NumberOfMarkers nd \<and>
             (Children nd \<noteq> [] \<longrightarrow>
               (\<exists>cds. map (lookup (Store s)) (Children nd) = map Some cds \<and>
                      NumberOfMarkers nd = (\<Sum>cd\<leftarrow>cds. NumberOfMarkers cd) \<and>
                      gcsCoords nd = weighted_centroid cds))"
proof (intro allI impI ballI)
  fix l p
  assume l: "l < length (NodeTable s)" and "p \<in> set (NodeTable s ! l)"
  then have p: "p \<in> level_set s l"
    by (simp add: level_set_def)
  have inv: "tree_inv s {} {}"
    using AddMarkers_tree [OF assms(1) tree_inv_fresh [OF assms(3)]
        leaf_inv_fresh [OF assms(3,4)] assms(2)] .
  from tree_inv_node [OF inv p] obtain nd where nd: "lookup (Store s) p = Some nd"
    and g: "good s l nd"
    by blast
  from g have n: "1 \<le> NumberOfMarkers nd"
    by (simp add: good_def)
  have "\<exists>cds. map (lookup (Store s)) (Children nd) = map Some cds \<and>
           NumberOfMarkers nd = (\<Sum>cd\<leftarrow>cds. NumberOfMarkers cd) \<and>
           gcsCoords nd = weighted_centroid cds" if ne: "Children nd \<noteq> []"
  proof -
    from ne obtain c where c: "c \<in> set (Children nd)"
      by (cases "Children nd") auto
    from tree_inv_child [OF inv p nd c] have "c \<in> level_set s (Suc l)"
      by simp
    from tree_inv_node [OF inv this] have "l < 19"
      by simp
    with g ne have cons: "consistent s nd"
      by (simp add: good_def)
    have "\<forall>c \<in> set (Children nd). \<exists>cd. lookup (Store s) c = Some cd"
      using tree_inv_child [OF inv p nd] by blast
    from consistent_centroid [OF cons n this] show ?thesis .
  qed
  with nd n show "\<exists>nd. lookup (Store s) p = Some nd \<and> 1 \<le> NumberOfMarkers nd \<and>
             (Children nd \<noteq> [] \<longrightarrow>
               (\<exists>cds. map (lookup (Store s)) (Children nd) = map Some cds \<and>
                      NumberOfMarkers nd = (\<Sum>cd\<leftarrow>cds. NumberOfMarkers cd) \<and>
                      gcsCoords nd = weighted_centroid cds))"
    by blast
qed

theorem children_count_and_centroid_witness:
  "AddMarkers (\<lambda>lat. lat) [(0, 0), (0, 1 / 16384), (0, 120)] (Init (constructor\<lparr>Clustering := True\<rparr>))
     = Inr (projr (AddMarkers (\<lambda>lat. lat) [(0, 0), (0, 1 / 16384), (0, 120)]
                     (Init (constructor\<lparr>Clustering := True\<rparr>)))) \<and>
   Clustering (Init (constructor\<lparr>Clustering := True\<rparr>)) \<and>
   NodeTable (Init (constructor\<lparr>Clustering := True\<rparr>)) = replicate 20 [] \<and>
   Store (Init (constructor\<lparr>Clustering := True\<rparr>)) = [] \<and>
   NodeTable (snd (projr (AddMarkers (\<lambda>lat. lat) [(0, 0), (0, 1 / 16384), (0, 120)]
                     (Init (constructor\<lparr>Clustering := True\<rparr>))))) ! 18 = [1, 22] \<and>
   map_option (\<lambda>nd. (Children nd, NumberOfMarkers nd, gcsCoords nd))
     (lookup (Store (snd (projr (AddMarkers (\<lambda>lat. lat) [(0, 0), (0, 1 / 16384), (0, 120)]
                     (Init (constructor\<lparr>Clustering := True\<rparr>)))))) 1)
     = Some ([0, 20], 2, (1 / 32768, 0)) \<and>
   (\<exists>nd cds.
      lookup (Store (snd (projr (AddMarkers (\<lambda>lat. lat) [(0, 0), (0, 1 / 16384), (0, 120)]
                     (Init (constructor\<lparr>Clustering := True\<rparr>)))))) 1 = Some nd \<and>
      map (lookup (Store (snd (projr (AddMarkers (\<lambda>lat. lat) [(0, 0), (0, 1 / 16384), (0, 120)]
                     (Init (constructor\<lparr>Clustering := True\<rparr>))))))) [0, 20] = map Some cds \<and>
      NumberOfMarkers nd = (\<Sum>cd\<leftarrow>cds. NumberOfMarkers cd) \<and>
      gcsCoords nd = weighted_centroid cds)"
proof -
  define r where "r = projr (AddMarkers (\<lambda>lat. lat) [(0, 0), (0, 1 / 16384), (0, 120)]
                     (Init (constructor\<lparr>Clustering := True\<rparr>)))"
  have a: "AddMarkers (\<lambda>lat. lat) [(0, 0), (0, 1 / 16384), (0, 120)]
             (Init (constructor\<lparr>Clustering := True\<rparr>))
           = Inr (projr (AddMarkers (\<lambda>lat. lat) [(0, 0), (0, 1 / 16384), (0, 120)]
                     (Init (constructor\<lparr>Clustering := True\<rparr>))))"
    by code_simp
  then have a': "AddMarkers (\<lambda>lat. lat) [(0, 0), (0, 1 / 16384), (0, 120)]
             (Init (constructor\<lparr>Clustering := True\<rparr>)) = Inr (fst r, snd r)"
    by (simp add: r_def)
  have b: "Clustering (Init (constructor\<lparr>Clustering := True\<rparr>))"
    "NodeTable (Init (constructor\<lparr>Clustering := True\<rparr>)) = replicate 20 []"
    "Store (Init (constructor\<lparr>Clustering := True\<rparr>)) = []"
    by (simp_all add: Init_def constructor_def NumberOfClusterLevels_def)
  have c: "NodeTable (snd (projr (AddMarkers (\<lambda>lat. lat) [(0, 0), (0, 1 / 16384), (0, 120)]
                     (Init (constructor\<lparr>Clustering := True\<rparr>))))) ! 18 = [1, 22]"
    by code_simp
  have d: "map_option (\<lambda>nd. (Children nd, NumberOfMarkers nd, gcsCoords nd))
     (lookup (Store (snd (projr (AddMarkers (\<lambda>lat. lat) [(0, 0), (0, 1 / 16384), (0, 120)]
                     (Init (constructor\<lparr>Clustering := True\<rparr>)))))) 1)
     = Some ([0, 20], 2, (1 / 32768, 0))"
    by code_simp
  have len: "length (NodeTable (snd (projr (AddMarkers (\<lambda>lat. lat) [(0, 0), (0, 1 / 16384), (0, 120)]
                     (Init (constructor\<lparr>Clustering := True\<rparr>)))))) = 20"
    by code_simp
  have l18: "18 < length (NodeTable (snd r))" and p1: "1 \<in> set (NodeTable (snd r) ! 18)"
    using c len by (simp_all add: r_def)
  have "\<exists>nd. lookup (Store (snd r)) 1 = Some nd \<and> 1 \<le> NumberOfMarkers nd \<and>
             (Children nd \<noteq> [] \<longrightarrow>
               (\<exists>cds. map (lookup (Store (snd r))) (Children nd) = map Some cds \<and>
                      NumberOfMarkers nd = (\<Sum>cd\<leftarrow>cds. NumberOfMarkers cd) \<and>
                      gcsCoords nd = weighted_centroid cds))"
    by (rule children_count_and_centroid [OF a' b, rule_format, OF l18 p1])
  then obtain nd where nd: "lookup (Store (snd r)) 1 = Some nd" and
    i: "Children nd \<noteq> [] \<longrightarrow>
               (\<exists>cds. map (lookup (Store (snd r))) (Children nd) = map Some cds \<and>
                      NumberOfMarkers nd = (\<Sum>cd\<leftarrow>cds. NumberOfMarkers cd) \<and>
                      gcsCoords nd = weighted_centroid cds)"
    by blast
  from d nd have ch: "Children nd = [0, 20]"
    by (simp add: r_def)
  with i have "\<exists>cds. map (lookup (Store (snd r))) [0, 20] = map Some cds \<and>
                      NumberOfMarkers nd = (\<Sum>cd\<leftarrow>cds. NumberOfMarkers cd) \<and>
                      gcsCoords nd = weighted_centroid cds"
    by simp
  with nd have "\<exists>nd cds. lookup (Store (snd r)) 1 = Some nd \<and>
      map (lookup (Store (snd r))) [0, 20] = map Some cds \<and>
      NumberOfMarkers nd = (\<Sum>cd\<leftarrow>cds. NumberOfMarkers cd) \<and>
      gcsCoords nd = weighted_centroid cds"
    by blast
  with a b c d show ?thesis
    unfolding r_def by simp
qed

end
